theory Spec2Isabelle
  imports Complex_Main "HOL-Library.List_Lexorder" "HOL-Library.Char_ord" "HOL-Library.AList"
begin

section \<open>Exceptions\<close>

text \<open>The Python exceptions that the modelled functions can let escape.\<close>

datatype py_error =
    IndexError | FileNotFoundError | NotADirectoryError | FileExistsError | PermissionError
  | OSError | ShutilError

section \<open>Size formatting\<close>

text \<open>
  \<^verbatim>\<open>format_size\<close> of \<^verbatim>\<open>deduplicate_contracts.py\<close> (lines 37-46) and of
  \<^verbatim>\<open>duplicate_scanner.py\<close> (lines 40-49); the two bodies are the same text.

  A size is a byte count (\<^verbatim>\<open>st_size\<close>, or a sum of them), so it is a \<^typ>\<open>nat\<close>. The loop
  divides by \<^verbatim>\<open>1024.0\<close>; a division of a float by a power of two is exact, and so is the
  conversion of an integer below \<open>2 ^ 53\<close> to a float, so that below \<open>2 ^ 53\<close> the float the
  source holds is the rational number of this model. The format \<^verbatim>\<open>.1f\<close> rounds that exact
  value to one decimal, a tie going to the even digit.
\<close>

definition round_half_even :: "rat \<Rightarrow> int" where
  "round_half_even q =
     (let f = \<lfloor>q\<rfloor>; d = q - of_int f
      in if d < 1 / 2 then f else if 1 / 2 < d then f + 1 else if even f then f else f + 1)"

definition digit_char :: "nat \<Rightarrow> char" where
  "digit_char d = ''0123456789'' ! d"

fun show_nat :: "nat \<Rightarrow> string" where
  "show_nat n = (if n < 10 then [digit_char n] else show_nat (n div 10) @ [digit_char (n mod 10)])"

declare show_nat.simps [simp del]

definition format_1f :: "rat \<Rightarrow> string" where
  "format_1f v =
     (let t = nat (round_half_even (v * 10))
      in show_nat (t div 10) @ ''.'' @ [digit_char (t mod 10)])"

definition size_names :: "string list" where
  "size_names = [''B'', ''KB'', ''MB'', ''GB'']"

function scale_size :: "rat \<Rightarrow> nat \<Rightarrow> rat \<times> nat" where
  "scale_size s i =
     (if 1024 \<le> s \<and> i < length size_names - 1 then scale_size (s / 1024.0) (i + 1) else (s, i))"
  by pat_completeness auto
termination
  by (relation "measure (\<lambda>(s, i). length size_names - 1 - i)") auto

declare scale_size.simps [simp del]

definition format_size :: "nat \<Rightarrow> string" where
  "format_size size_bytes =
     (if size_bytes = 0 then ''0 B''
      else (case scale_size (of_nat size_bytes) 0 of
              (v, i) \<Rightarrow> format_1f v @ '' '' @ size_names ! i))"

section \<open>Hash-based deduplication of a flat folder\<close>

text \<open>
  \<^verbatim>\<open>calculate_file_hash\<close> and \<^verbatim>\<open>deduplicate_folder\<close> of \<^verbatim>\<open>deduplicate_contracts.py\<close> (lines
  24-34 and 49-89).

  What the script reads of the file system is one directory listing. An entry of the
  listing carries what the script and the library ask of it:

    \<^item> its name;

    \<^item> what \<^verbatim>\<open>file.is_file()\<close> does: it returns a truth value, or it raises, since \<^verbatim>\<open>pathlib\<close>
      lets every error of \<^verbatim>\<open>stat\<close> through but those that say the file is missing (a
      \<^verbatim>\<open>stat\<close> that is refused raises \<^verbatim>\<open>PermissionError\<close>);

    \<^item> what \<^verbatim>\<open>open(filepath, "rb")\<close> does: it raises, or it gives a file whose successive
      calls \<^verbatim>\<open>f.read(4096)\<close> raise or return bytes (\<^verbatim>\<open>b""\<close> at the end of the file, and
      also when the list of results ends);

    \<^item> \<^verbatim>\<open>st_mtime\<close>, \<^verbatim>\<open>st_size\<close>, and whether \<^verbatim>\<open>os.remove\<close> succeeds on it.

  A modification time is a finite float and is only compared, so it is a rational number
  here. Entries of one directory have different names; the theorems that need it assume
  it. Nothing but the script changes the folder during the run, so that \<^verbatim>\<open>file.stat()\<close>
  succeeds (line 64) on a file of which \<^verbatim>\<open>is_file()\<close> has just held.

  \<^verbatim>\<open>hashlib.md5\<close> is a parameter of the model, \<open>md5\<close>: the function from the bytes fed to the
  hasher to its hex digest.
\<close>

datatype read_result = ReadRaises py_error | ReadReturns string

record dir_entry =
  fname :: string
  is_file :: "py_error + bool"
  open_rb :: "py_error + read_result list"
  st_mtime :: rat
  st_size :: nat
  removable :: bool

text \<open>
  The path given to the script: \<^verbatim>\<open>exists()\<close> is false of it; or \<^verbatim>\<open>exists()\<close> raises (like
  \<^verbatim>\<open>is_file()\<close>, where \<^verbatim>\<open>stat\<close> is refused); or it exists and \<^verbatim>\<open>iterdir()\<close> raises, the path
  not being a directory or its listing being refused; or it is a directory with a listing.
\<close>

datatype fs_path =
  NoSuchPath | NoAccess | NotADirectory | NotListable | Directory "dir_entry list"

text \<open>
  The calls and the printed lines of a run, in order. \<open>CalcHash\<close> is a call of
  \<^verbatim>\<open>calculate_file_hash\<close> and \<open>OsRemove\<close> a call of \<^verbatim>\<open>os.remove\<close>; the others are the
  \<^verbatim>\<open>print\<close> statements. The script reads no input.
\<close>

datatype dedup_event =
    PrintFolderNotFound
  | PrintScanning
  | CalcHash string
  | PrintErrorReading string
  | PrintDuplicateGroup string string
  | OsRemove string
  | PrintDeleted string
  | PrintErrorDeleting string
  | PrintComplete nat string

record dedup_state =
  folder :: "dir_entry list"
  out :: "dedup_event list"
  total_removed :: nat
  total_space :: nat

definition startswith_dot :: "string \<Rightarrow> bool" where
  "startswith_dot s = (case s of [] \<Rightarrow> False | c # _ \<Rightarrow> c = CHR ''.'')"

text \<open>\<^verbatim>\<open>d.setdefault(k, []).append(v)\<close> on a dictionary kept in insertion order.\<close>

fun setdefault_append :: "'k \<Rightarrow> 'v \<Rightarrow> ('k \<times> 'v list) list \<Rightarrow> ('k \<times> 'v list) list" where
  "setdefault_append k v [] = [(k, [v])]"
| "setdefault_append k v ((k', vs) # d) =
     (if k = k' then (k', vs @ [v]) # d else (k', vs) # setdefault_append k v d)"

text \<open>
  \<^verbatim>\<open>list.sort(key=..., reverse=True)\<close>: descending by key, and stable, elements of equal
  key keeping their order (Python documents both for \<^verbatim>\<open>reverse=True\<close>). A stable sort has
  one result only, so insertion stands for the library's algorithm.
\<close>

fun insort_desc :: "('a \<Rightarrow> 'k::linorder) \<Rightarrow> 'a \<Rightarrow> 'a list \<Rightarrow> 'a list" where
  "insort_desc key x [] = [x]"
| "insort_desc key x (y # ys) =
     (if key y \<le> key x then x # y # ys else y # insort_desc key x ys)"

definition sort_desc :: "('a \<Rightarrow> 'k::linorder) \<Rightarrow> 'a list \<Rightarrow> 'a list" where
  "sort_desc key xs = foldr (insort_desc key) xs []"

text \<open>
  The loop of lines 29-30. The state of the hasher is the bytes fed to it so far
  (\<^verbatim>\<open>update(a)\<close> and then \<^verbatim>\<open>update(b)\<close> is \<^verbatim>\<open>update(a + b)\<close>); \<^verbatim>\<open>iter\<close> stops at the first
  empty result.
\<close>

fun read_chunks :: "read_result list \<Rightarrow> string \<Rightarrow> py_error + string" where
  "read_chunks [] fed = Inr fed"
| "read_chunks (ReadRaises e # reads) fed = Inl e"
| "read_chunks (ReadReturns chunk # reads) fed =
     (if chunk = [] then Inr fed else read_chunks reads (fed @ chunk))"

text \<open>The body of the \<^verbatim>\<open>try\<close> statement up to the digest (lines 28-30).\<close>

definition read_content :: "dir_entry \<Rightarrow> py_error + string" where
  "read_content filepath =
     (case open_rb filepath of
        Inl e \<Rightarrow> Inl e
      | Inr reads \<Rightarrow> read_chunks reads [])"

text \<open>
  \<^verbatim>\<open>calculate_file_hash\<close> (lines 24-34): the result, and the lines printed. The handler of
  line 32 catches every \<^verbatim>\<open>Exception\<close>, prints and returns \<^verbatim>\<open>None\<close>.
\<close>

definition calculate_file_hash ::
  "(string \<Rightarrow> string) \<Rightarrow> dir_entry \<Rightarrow> string option \<times> dedup_event list"
where
  "calculate_file_hash md5 filepath =
     (case read_content filepath of
        Inl e \<Rightarrow> (None, [PrintErrorReading (fname filepath)])
      | Inr fed \<Rightarrow> (Some (md5 fed), []))"

text \<open>
  The scanning loop (lines 59-66). The test of line 60 is outside every \<^verbatim>\<open>try\<close>: when
  \<^verbatim>\<open>is_file()\<close> raises, the exception escapes and the run ends there. The error result
  carries the dictionary and the lines printed up to that point.
\<close>

type_synonym file_hashes = "(string \<times> (dir_entry \<times> rat) list) list"

fun scan_files ::
  "(string \<Rightarrow> string) \<Rightarrow> dir_entry list \<Rightarrow> file_hashes \<Rightarrow> dedup_event list \<Rightarrow>
   (py_error \<times> file_hashes \<times> dedup_event list) + (file_hashes \<times> dedup_event list)"
where
  "scan_files md5 [] file_hashes tr = Inr (file_hashes, tr)"
| "scan_files md5 (file # rest) file_hashes tr =
     (case is_file file of
        Inl e \<Rightarrow> Inl (e, file_hashes, tr)
      | Inr regular \<Rightarrow>
          if regular \<and> \<not> startswith_dot (fname file) then
            (case calculate_file_hash md5 file of
               (None, printed) \<Rightarrow>
                 scan_files md5 rest file_hashes (tr @ CalcHash (fname file) # printed)
             | (Some file_hash, printed) \<Rightarrow>
                 scan_files md5 rest
                   (setdefault_append file_hash (file, st_mtime file) file_hashes)
                   (tr @ CalcHash (fname file) # printed))
          else scan_files md5 rest file_hashes tr)"

text \<open>
  The deletion loop (lines 79-87). \<^verbatim>\<open>file.stat()\<close> raises when the file is no longer in
  the folder, and then \<^verbatim>\<open>os.remove\<close> is not reached; both exceptions are caught by the
  same handler.
\<close>

fun delete_files :: "dir_entry list \<Rightarrow> dedup_state \<Rightarrow> dedup_state" where
  "delete_files [] s = s"
| "delete_files (file # rest) s =
     delete_files rest
       (if fname file \<notin> fname ` set (folder s) then
          s\<lparr>out := out s @ [PrintErrorDeleting (fname file)]\<rparr>
        else if \<not> removable file then
          s\<lparr>out := out s @ [OsRemove (fname file), PrintErrorDeleting (fname file)]\<rparr>
        else
          s\<lparr>folder := filter (\<lambda>e. fname e \<noteq> fname file) (folder s),
            out := out s @ [OsRemove (fname file), PrintDeleted (fname file)],
            total_removed := total_removed s + 1,
            total_space := total_space s + st_size file\<rparr>)"

text \<open>The loop over the groups (lines 72-87).\<close>

fun process_groups :: "file_hashes \<Rightarrow> dedup_state \<Rightarrow> dedup_state" where
  "process_groups [] s = s"
| "process_groups ((file_hash, files) # rest) s =
     process_groups rest
       (if length files > 1 then
          (let files' = sort_desc snd files;
               keep_file = fst (files' ! 0);
               to_delete = map fst (drop 1 files')
           in delete_files to_delete
                (s\<lparr>out := out s @ [PrintDuplicateGroup file_hash (fname keep_file)]\<rparr>))
        else s)"

text \<open>
  \<^verbatim>\<open>deduplicate_folder\<close>. An exception that escapes ends the run; the error result carries
  the folder and the lines printed so far (and the two counters as 0: the exceptions that
  escape do so before the counters are set).
\<close>

type_synonym dedup_result = "(py_error \<times> dedup_state) + dedup_state"

definition deduplicate_folder :: "(string \<Rightarrow> string) \<Rightarrow> fs_path \<Rightarrow> dedup_result" where
  "deduplicate_folder md5 p =
     (case p of
        NoSuchPath \<Rightarrow>
          Inr \<lparr>folder = [], out = [PrintFolderNotFound], total_removed = 0, total_space = 0\<rparr>
      | NoAccess \<Rightarrow>
          Inl (PermissionError, \<lparr>folder = [], out = [], total_removed = 0, total_space = 0\<rparr>)
      | NotADirectory \<Rightarrow>
          Inl (NotADirectoryError,
               \<lparr>folder = [], out = [PrintScanning], total_removed = 0, total_space = 0\<rparr>)
      | NotListable \<Rightarrow>
          Inl (PermissionError,
               \<lparr>folder = [], out = [PrintScanning], total_removed = 0, total_space = 0\<rparr>)
      | Directory entries \<Rightarrow>
          (case scan_files md5 entries [] [PrintScanning] of
             Inl (e, file_hashes, tr) \<Rightarrow>
               Inl (e, \<lparr>folder = entries, out = tr, total_removed = 0, total_space = 0\<rparr>)
           | Inr (file_hashes, tr) \<Rightarrow>
               (let s = process_groups file_hashes
                          \<lparr>folder = entries, out = tr, total_removed = 0, total_space = 0\<rparr>
                in Inr (s\<lparr>out := out s @
                          [PrintComplete (total_removed s) (format_size (total_space s))]\<rparr>))))"

text \<open>
  What a loop or a run ends with, whether it completes or is stopped by an exception.
\<close>

fun ending :: "(py_error \<times> 'a) + 'a \<Rightarrow> 'a" where
  "ending (Inl (e, st)) = st"
| "ending (Inr st) = st"

text \<open>
  The notions of the statements below. The listing is read as far as \<^verbatim>\<open>is_file()\<close>
  returns: the entries reached are those before the first one on which it raises. A file
  is scanned when it passes the test of line 60. Its digest is what
  \<^verbatim>\<open>calculate_file_hash\<close> returns for it. The duplicate group of a hash is made of the
  scanned files whose content has that hash, in listing order.
\<close>

definition is_file_returns :: "dir_entry \<Rightarrow> bool" where
  "is_file_returns e = (case is_file e of Inl err \<Rightarrow> False | Inr regular \<Rightarrow> True)"

definition reached :: "dir_entry list \<Rightarrow> dir_entry list" where
  "reached entries = takeWhile is_file_returns entries"

definition scanned :: "dir_entry \<Rightarrow> bool" where
  "scanned e = (is_file e = Inr True \<and> \<not> startswith_dot (fname e))"

definition digest :: "(string \<Rightarrow> string) \<Rightarrow> dir_entry \<Rightarrow> string option" where
  "digest md5 e = fst (calculate_file_hash md5 e)"

definition hash_group :: "(string \<Rightarrow> string) \<Rightarrow> string \<Rightarrow> dir_entry list \<Rightarrow> dir_entry list" where
  "hash_group md5 h entries = filter (\<lambda>e. scanned e \<and> digest md5 e = Some h) entries"

definition group_of :: "('k \<times> 'v list) list \<Rightarrow> 'k \<Rightarrow> 'v list" where
  "group_of d k = (case map_of d k of None \<Rightarrow> [] | Some vs \<Rightarrow> vs)"

text \<open>What the scanning loop does and prints for one entry.\<close>

definition scan_events :: "(string \<Rightarrow> string) \<Rightarrow> dir_entry \<Rightarrow> dedup_event list" where
  "scan_events md5 e =
     (if scanned e then CalcHash (fname e) # snd (calculate_file_hash md5 e) else [])"

text \<open>The list \<^verbatim>\<open>to_delete\<close> of a group (empty for a group of one file, which is passed over).\<close>

definition deletions :: "(dir_entry \<times> rat) list \<Rightarrow> dir_entry list" where
  "deletions files = (if length files > 1 then map fst (drop 1 (sort_desc snd files)) else [])"

text \<open>
  A scanned file is unreadable when opening it or reading it raises; the line printed
  then is recognised by \<open>is_error_reading\<close>.
\<close>

definition unreadable :: "dir_entry \<Rightarrow> bool" where
  "unreadable e =
     (scanned e \<and> (case read_content e of Inl err \<Rightarrow> True | Inr fed \<Rightarrow> False))"

fun is_error_reading :: "dedup_event \<Rightarrow> bool" where
  "is_error_reading (PrintErrorReading n) = True"
| "is_error_reading ev = False"

text \<open>
  A folder for the examples: two copies of one content of 1536 bytes, a third file, a
  hidden file and a file that cannot be opened. The second folder has an entry, between
  the two copies, on which \<^verbatim>\<open>is_file()\<close> raises. The digest of the examples is made of the
  first four bytes.
\<close>

definition demo_md5 :: "string \<Rightarrow> string" where
  "demo_md5 bytes = take 4 bytes"

definition invoice_bytes :: string where
  "invoice_bytes = ''d41d'' @ replicate 1532 (CHR ''0'')"

definition demo_folder :: "dir_entry list" where
  "demo_folder =
     [\<lparr>fname = ''Invoice.pdf'', is_file = Inr True,
        open_rb = Inr [ReadReturns invoice_bytes, ReadReturns []],
        st_mtime = 10, st_size = 1536, removable = True\<rparr>,
      \<lparr>fname = ''Invoice_copy.pdf'', is_file = Inr True,
        open_rb = Inr [ReadReturns invoice_bytes, ReadReturns []],
        st_mtime = 20, st_size = 1536, removable = True\<rparr>,
      \<lparr>fname = ''Notes.txt'', is_file = Inr True,
        open_rb = Inr [ReadReturns ''9e107d9'', ReadReturns []],
        st_mtime = 5, st_size = 7, removable = True\<rparr>,
      \<lparr>fname = ''.DS_Store'', is_file = Inr True,
        open_rb = Inr [ReadReturns invoice_bytes, ReadReturns []],
        st_mtime = 30, st_size = 1536, removable = True\<rparr>,
      \<lparr>fname = ''Locked.pdf'', is_file = Inr True, open_rb = Inl PermissionError,
        st_mtime = 40, st_size = 99, removable = True\<rparr>]"

definition denied_folder :: "dir_entry list" where
  "denied_folder =
     [\<lparr>fname = ''Invoice.pdf'', is_file = Inr True,
        open_rb = Inr [ReadReturns invoice_bytes, ReadReturns []],
        st_mtime = 10, st_size = 1536, removable = True\<rparr>,
      \<lparr>fname = ''Elsewhere.pdf'', is_file = Inl PermissionError, open_rb = Inl PermissionError,
        st_mtime = 0, st_size = 0, removable = False\<rparr>,
      \<lparr>fname = ''Invoice_copy.pdf'', is_file = Inr True,
        open_rb = Inr [ReadReturns invoice_bytes, ReadReturns []],
        st_mtime = 20, st_size = 1536, removable = True\<rparr>]"

section \<open>Fuzzy grouping of folder names\<close>

text \<open>
  \<^verbatim>\<open>fuzzy_group\<close> of \<^verbatim>\<open>merge_customer_folders.py\<close> (lines 26-41). The scorer
  \<^verbatim>\<open>fuzz.ratio\<close> belongs to the library \<^verbatim>\<open>rapidfuzz\<close>, which is not part of the repository:
  it is the parameter \<open>ratio\<close>, and its score may be of any linearly ordered type.

  The inner loop reads \<^verbatim>\<open>group[0]\<close>, which raises \<^verbatim>\<open>IndexError\<close> on an empty group; the
  model keeps that branch. The result of the inner loop is the flag \<^verbatim>\<open>added\<close> together
  with the groups after the \<^verbatim>\<open>append\<close>.
\<close>



fun join_first ::
  "('a \<Rightarrow> 'a \<Rightarrow> 's::linorder) \<Rightarrow> 's \<Rightarrow> 'a \<Rightarrow> 'a list list \<Rightarrow> py_error + (bool \<times> 'a list list)"
where
  "join_first ratio threshold name [] = Inr (False, [])"
| "join_first ratio threshold name (grp # groups) =
     (case grp of
        [] \<Rightarrow> Inl IndexError
      | g0 # _ \<Rightarrow>
          if threshold \<le> ratio name g0 then Inr (True, (grp @ [name]) # groups)
          else (case join_first ratio threshold name groups of
                  Inl e \<Rightarrow> Inl e
                | Inr (added, groups') \<Rightarrow> Inr (added, grp # groups')))"

fun fuzzy_group_loop ::
  "('a \<Rightarrow> 'a \<Rightarrow> 's::linorder) \<Rightarrow> 's \<Rightarrow> 'a list \<Rightarrow> 'a list list \<Rightarrow> py_error + 'a list list"
where
  "fuzzy_group_loop ratio threshold [] groups = Inr groups"
| "fuzzy_group_loop ratio threshold (name # names) groups =
     (case join_first ratio threshold name groups of
        Inl e \<Rightarrow> Inl e
      | Inr (added, groups') \<Rightarrow>
          fuzzy_group_loop ratio threshold names
            (if \<not> added then groups' @ [[name]] else groups'))"

definition fuzzy_group ::
  "('a \<Rightarrow> 'a \<Rightarrow> 's::linorder) \<Rightarrow> 's \<Rightarrow> 'a list \<Rightarrow> py_error + 'a list list"
where
  "fuzzy_group ratio threshold names = fuzzy_group_loop ratio threshold names []"

section \<open>Strings: whitespace and case\<close>

text \<open>
  A character of the model is a code point below 256. \<open>is_space\<close> is \<^verbatim>\<open>str.isspace\<close> there,
  which is also what \<^verbatim>\<open>\s\<close> matches in a pattern on \<^verbatim>\<open>str\<close>: tab to carriage return, the
  four separators \<open>0x1C\<close> to \<open>0x1F\<close>, the space, \<open>0x85\<close> and \<open>0xA0\<close>. \<open>lower\<close> is \<^verbatim>\<open>str.lower\<close>:
  the letters \<open>A\<close> to \<open>Z\<close> and the Latin-1 capitals \<open>0xC0\<close> to \<open>0xDE\<close> (without the
  multiplication sign \<open>0xD7\<close>) move up by 32, which sets bit 5 of the code.
\<close>

definition is_space :: "char \<Rightarrow> bool" where
  "is_space c =
     (let n = (of_char c :: nat)
      in (9 \<le> n \<and> n \<le> 13) \<or> (28 \<le> n \<and> n \<le> 32) \<or> n = 133 \<or> n = 160)"

definition strip :: "string \<Rightarrow> string" where
  "strip s = rev (dropWhile is_space (rev (dropWhile is_space s)))"

definition is_upper :: "char \<Rightarrow> bool" where
  "is_upper c =
     (let n = (of_char c :: nat)
      in (65 \<le> n \<and> n \<le> 90) \<or> (192 \<le> n \<and> n \<le> 222 \<and> n \<noteq> 215))"

fun set_bit5 :: "char \<Rightarrow> char" where
  "set_bit5 (Char b0 b1 b2 b3 b4 b5 b6 b7) = Char b0 b1 b2 b3 b4 True b6 b7"

definition lower_char :: "char \<Rightarrow> char" where
  "lower_char c = (if is_upper c then set_bit5 c else c)"

definition lower :: "string \<Rightarrow> string" where
  "lower s = map lower_char s"

section \<open>Merging similar customer folders\<close>

text \<open>
  \<^verbatim>\<open>merge_directories\<close> and \<^verbatim>\<open>main\<close> of \<^verbatim>\<open>merge_customer_folders.py\<close> (lines 44-76 and
  79-106).

  The file system the script sees is the root directory: a listing of names. An entry of
  the root is a folder with its own listing of children, a symbolic link whose target is
  missing, or anything else that exists and is not a directory (\<open>File\<close>). A child of a
  folder is a regular file, a directory, or a symbolic link whose target exists or is
  missing; it is moved as a whole, so its content is a value of any type \<open>'i\<close>. Names
  are directory entry names, so that \<^verbatim>\<open>os.path.join(root, name)\<close> is the entry \<open>name\<close> of
  the root. A listing is kept in the order \<^verbatim>\<open>os.listdir\<close> gives; a moved child goes to the
  end of the listing of its new folder.

  The kind of an entry decides the two questions the script and \<^verbatim>\<open>shutil.move\<close> ask of it:
  \<^verbatim>\<open>os.path.exists\<close> follows symbolic links, so it is false of a link whose target is
  missing, and \<^verbatim>\<open>os.rename\<close> puts anything but a directory in the place of such a link.

  Three things are taken as given: every folder of the root is reached by one name only
  (no entry of the root is a symbolic link to a directory), names are compared exactly
  (the file system is case sensitive), and the process may read and write everywhere below
  the root, all on one file system, which nothing else changes during the run. The
  exceptions of the model are those that the shape of the directory tree causes.
\<close>

datatype kind = RegularFile | Subdirectory | LinkResolving | LinkDangling

datatype 'i node = File | Folder "(string \<times> kind \<times> 'i) list" | DanglingLink

text \<open>
  The calls and the printed lines of a run, in order. \<open>InputConfirm\<close> is the call of
  \<^verbatim>\<open>input\<close> of line 100 with the text typed; \<open>ShutilMove src_folder item rep\<close> is the call
  \<^verbatim>\<open>shutil.move(root/src_folder/item, root/rep/item)\<close>, where \<open>src_folder\<close> is the variable
  \<^verbatim>\<open>folder\<close> of the source; \<open>OsRmdir\<close> is the call of \<^verbatim>\<open>os.rmdir\<close>.
\<close>

datatype merge_event =
    PrintFound nat
  | PrintSuggestions "(string \<times> string list) list"
  | InputConfirm string
  | PrintCancelled
  | PrintRepMissing string "string list"
  | PrintMerging "string list" string
  | PrintConflict string string string
  | ShutilMove string string string
  | OsRmdir string
  | PrintRemoved string
  | PrintCouldNotRemove string
  | PrintFolderMissing string
  | PrintCompleted

record 'i merge_state =
  dirs :: "(string \<times> 'i node) list"
  mlog :: "merge_event list"

text \<open>
  An exception that escapes leaves the file system as it is at that moment: the error
  result carries the state.
\<close>

type_synonym 'i merge_result = "(py_error \<times> 'i merge_state) + 'i merge_state"

text \<open>
  \<^verbatim>\<open>os.path.exists(os.path.join(root, name))\<close> (line 54) and
  \<^verbatim>\<open>os.path.exists(os.path.join(rep_path, item))\<close> (line 66). Both follow symbolic links: a
  link whose target is missing does not exist for them, though it is in the listing.
\<close>

definition path_exists :: "(string \<times> 'i node) list \<Rightarrow> string \<Rightarrow> bool" where
  "path_exists d name =
     (case map_of d name of
        None \<Rightarrow> False
      | Some DanglingLink \<Rightarrow> False
      | Some nd \<Rightarrow> True)"

definition exists_at :: "(string \<times> 'i node) list \<Rightarrow> string \<Rightarrow> string \<Rightarrow> bool" where
  "exists_at d rep item =
     (case map_of d rep of
        Some (Folder children) \<Rightarrow>
          (case map_of children item of
             None \<Rightarrow> False
           | Some (k, v) \<Rightarrow> k \<noteq> LinkDangling)
      | _ \<Rightarrow> False)"

text \<open>
  \<^verbatim>\<open>shutil.move(src, dst)\<close> where \<^verbatim>\<open>os.path.exists(dst)\<close> is false, as at its one call (line
  69). It raises when the source is not there, or when \<open>rep\<close> is missing or is not a folder
  (\<^verbatim>\<open>os.rename\<close> fails, and so does the copy that the library tries next). Otherwise there
  are two cases. Where \<open>rep\<close> has no entry \<open>item\<close>, the child leaves the listing of its
  folder and enters that of \<open>rep\<close> under the same name. Where the entry \<open>item\<close> of \<open>rep\<close> is a
  link whose target is missing, \<^verbatim>\<open>os.rename\<close> replaces the link by the child, unless the
  child is a directory: then \<^verbatim>\<open>os.rename\<close> fails, the library falls back to
  \<^verbatim>\<open>copytree\<close>, and its \<^verbatim>\<open>os.makedirs(dst)\<close> raises \<^verbatim>\<open>FileExistsError\<close>, the child staying
  where it was.

  Where \<open>dst\<close> exists, what the library does depends on what \<open>dst\<close> is and holds (it
  overwrites a file and moves into a directory). The script does not call it there, and
  the definition gives no account of it: that branch is \<open>ShutilError\<close>.
\<close>

definition shutil_move ::
  "(string \<times> 'i node) list \<Rightarrow> string \<Rightarrow> string \<Rightarrow> string \<Rightarrow> py_error + (string \<times> 'i node) list"
where
  "shutil_move d src_folder item rep =
     (case map_of d src_folder of
        Some (Folder src_children) \<Rightarrow>
          (case map_of src_children item of
             None \<Rightarrow> Inl FileNotFoundError
           | Some (k, v) \<Rightarrow>
               (case map_of d rep of
                  Some (Folder dst_children) \<Rightarrow>
                    (case map_of dst_children item of
                       None \<Rightarrow>
                         Inr (AList.update rep (Folder (dst_children @ [(item, (k, v))]))
                                (AList.update src_folder (Folder (AList.delete item src_children)) d))
                     | Some (k', v') \<Rightarrow>
                         if k' \<noteq> LinkDangling then Inl ShutilError
                         else if k = Subdirectory then Inl FileExistsError
                         else
                           Inr (AList.update rep
                                  (Folder (AList.delete item dst_children @ [(item, (k, v))]))
                                  (AList.update src_folder
                                     (Folder (AList.delete item src_children)) d)))
                | Some File \<Rightarrow> Inl NotADirectoryError
                | _ \<Rightarrow> Inl FileNotFoundError))
      | _ \<Rightarrow> Inl FileNotFoundError)"

text \<open>The loop over the children of one folder (lines 63-69).\<close>

fun move_items :: "string \<Rightarrow> string \<Rightarrow> string list \<Rightarrow> 'i merge_state \<Rightarrow> 'i merge_result" where
  "move_items rep src_folder [] s = Inr s"
| "move_items rep src_folder (item # items) s =
     (if exists_at (dirs s) rep item then
        move_items rep src_folder items (s\<lparr>mlog := mlog s @ [PrintConflict rep src_folder item]\<rparr>)
      else
        (case shutil_move (dirs s) src_folder item rep of
           Inl e \<Rightarrow> Inl (e, s\<lparr>mlog := mlog s @ [ShutilMove src_folder item rep]\<rparr>)
         | Inr d' \<Rightarrow>
             move_items rep src_folder items
               (s\<lparr>dirs := d', mlog := mlog s @ [ShutilMove src_folder item rep]\<rparr>)))"

text \<open>
  \<^verbatim>\<open>os.rmdir\<close> removes an empty folder and raises \<^verbatim>\<open>OSError\<close> otherwise; the script
  catches it (lines 70-74).
\<close>

definition try_rmdir :: "string \<Rightarrow> 'i merge_state \<Rightarrow> 'i merge_state" where
  "try_rmdir src_folder s =
     (case map_of (dirs s) src_folder of
        Some (Folder []) \<Rightarrow>
          s\<lparr>dirs := AList.delete src_folder (dirs s),
            mlog := mlog s @ [OsRmdir src_folder, PrintRemoved src_folder]\<rparr>
      | _ \<Rightarrow> s\<lparr>mlog := mlog s @ [OsRmdir src_folder, PrintCouldNotRemove src_folder]\<rparr>)"

text \<open>The body of the loop over the folders of one group (lines 58-76).\<close>

definition merge_folder :: "string \<Rightarrow> string \<Rightarrow> 'i merge_state \<Rightarrow> 'i merge_result" where
  "merge_folder rep src_folder s =
     (if src_folder = rep then Inr s
      else
        (case map_of (dirs s) src_folder of
           Some (Folder children) \<Rightarrow>
             (case move_items rep src_folder (map fst children) s of
                Inl err \<Rightarrow> Inl err
              | Inr s1 \<Rightarrow> Inr (try_rmdir src_folder s1))
         | _ \<Rightarrow> Inr (s\<lparr>mlog := mlog s @ [PrintFolderMissing src_folder]\<rparr>)))"

fun merge_folders :: "string \<Rightarrow> string list \<Rightarrow> 'i merge_state \<Rightarrow> 'i merge_result" where
  "merge_folders rep [] s = Inr s"
| "merge_folders rep (src_folder # rest) s =
     (case merge_folder rep src_folder s of
        Inl err \<Rightarrow> Inl err
      | Inr s1 \<Rightarrow> merge_folders rep rest s1)"

text \<open>
  The body of the loop over the groups (lines 49-57). \<^verbatim>\<open>sorted\<close> orders strings by code
  point, lexicographically, which is the order of \<^typ>\<open>string\<close> here.
\<close>

definition merge_group :: "string list \<Rightarrow> 'i merge_state \<Rightarrow> 'i merge_result" where
  "merge_group grp s =
     (if length grp > 1 then
        (let group_sorted = sort grp;
             rep = group_sorted ! 0
         in if \<not> path_exists (dirs s) rep then
              Inr (s\<lparr>mlog := mlog s @ [PrintRepMissing rep grp]\<rparr>)
            else
              merge_folders rep group_sorted
                (s\<lparr>mlog := mlog s @ [PrintMerging group_sorted rep]\<rparr>))
      else Inr s)"

fun merge_directories :: "string list list \<Rightarrow> 'i merge_state \<Rightarrow> 'i merge_result" where
  "merge_directories [] s = Inr s"
| "merge_directories (grp # groups) s =
     (case merge_group grp s of
        Inl err \<Rightarrow> Inl err
      | Inr s1 \<Rightarrow> merge_directories groups s1)"

text \<open>
  \<^verbatim>\<open>main\<close>, from the listing of the root on (lines 88-106): the root directory is given,
  \<open>answer\<close> is what the user types at the prompt. \<^verbatim>\<open>fuzzy_group\<close> is called with its default
  threshold 80.
\<close>

fun is_dir :: "'i node \<Rightarrow> bool" where
  "is_dir File = False"
| "is_dir (Folder children) = True"
| "is_dir DanglingLink = False"

definition suggestions :: "string list list \<Rightarrow> (string \<times> string list) list" where
  "suggestions groups = map (\<lambda>g. (sort g ! 0, sort g)) (filter (\<lambda>g. length g > 1) groups)"

definition main ::
  "(string \<Rightarrow> string \<Rightarrow> 's::{linorder,numeral}) \<Rightarrow> (string \<times> 'i node) list \<Rightarrow> string \<Rightarrow>
   'i merge_result"
where
  "main ratio d answer =
     (let customers = map fst (filter (\<lambda>(name, nd). is_dir nd) d);
          s0 = \<lparr>dirs = d, mlog = [PrintFound (length customers)]\<rparr>
      in case fuzzy_group ratio 80 customers of
           Inl e \<Rightarrow> Inl (e, s0)
         | Inr groups \<Rightarrow>
             (let s1 = s0\<lparr>mlog := mlog s0 @ [PrintSuggestions (suggestions groups),
                                               InputConfirm answer]\<rparr>;
                  confirm = lower (strip answer)
              in if confirm \<noteq> ''y'' then Inr (s1\<lparr>mlog := mlog s1 @ [PrintCancelled]\<rparr>)
                 else
                   (case merge_directories groups s1 of
                      Inl err \<Rightarrow> Inl err
                    | Inr s2 \<Rightarrow> Inr (s2\<lparr>mlog := mlog s2 @ [PrintCompleted]\<rparr>))))"

section \<open>The confirmation gate\<close>

text \<open>
  The notions of the statement about confirmation. A step of a run either displays the
  plan, is an affirmative confirmation, changes the file system, or is none of these. A
  run is gated when each of its changes comes after a display of the plan and after an
  affirmative confirmation.
\<close>

datatype gate_step = PlanDisplayed | Confirmation | Mutation | Neutral

fun gated_from :: "bool \<Rightarrow> bool \<Rightarrow> gate_step list \<Rightarrow> bool" where
  "gated_from plan conf [] = True"
| "gated_from plan conf (PlanDisplayed # tr) = gated_from True conf tr"
| "gated_from plan conf (Confirmation # tr) = gated_from plan True tr"
| "gated_from plan conf (Mutation # tr) = (plan \<and> conf \<and> gated_from plan conf tr)"
| "gated_from plan conf (Neutral # tr) = gated_from plan conf tr"

definition gated :: "gate_step list \<Rightarrow> bool" where
  "gated tr = gated_from False False tr"

text \<open>
  The steps of the merge script: the suggestions are the plan, the answer \<open>y\<close> (after
  \<^verbatim>\<open>strip\<close> and \<^verbatim>\<open>lower\<close>) is the confirmation, a move or a removal of a folder is a change.
  The steps of the deduplication script: a call of \<^verbatim>\<open>os.remove\<close> is a change; the script
  prints no plan and reads no input, so it has no other kind of step.
\<close>

fun merge_step :: "merge_event \<Rightarrow> gate_step" where
  "merge_step (PrintSuggestions plan) = PlanDisplayed"
| "merge_step (InputConfirm answer) = (if lower (strip answer) = ''y'' then Confirmation else Neutral)"
| "merge_step (ShutilMove src_folder item rep) = Mutation"
| "merge_step (OsRmdir src_folder) = Mutation"
| "merge_step ev = Neutral"

fun dedup_step :: "dedup_event \<Rightarrow> gate_step" where
  "dedup_step (OsRemove n) = Mutation"
| "dedup_step ev = Neutral"

text \<open>
  Two notions of the statements about one merge. An entry \<open>n\<close> of a listing is present
  when \<^verbatim>\<open>os.path.exists\<close> holds of it: it is there and is not a link whose target is
  missing. A child \<open>n\<close> of the source is blocked when it is a directory and the entry \<open>n\<close>
  of the representative is such a link: this is where \<^verbatim>\<open>shutil.move\<close> raises.
\<close>

definition present :: "(string \<times> kind \<times> 'i) list \<Rightarrow> string \<Rightarrow> bool" where
  "present children n =
     (case map_of children n of None \<Rightarrow> False | Some (k, v) \<Rightarrow> k \<noteq> LinkDangling)"

definition blocked ::
  "(string \<times> kind \<times> 'i) list \<Rightarrow> (string \<times> kind \<times> 'i) list \<Rightarrow> string \<Rightarrow> bool"
where
  "blocked rch fch n =
     (map_option fst (map_of fch n) = Some Subdirectory \<and>
      map_option fst (map_of rch n) = Some LinkDangling)"

text \<open>The state a run ends in, whether it completes or is stopped by an exception.\<close>

fun final_state :: "'i merge_result \<Rightarrow> 'i merge_state" where
  "final_state (Inl (e, s)) = s"
| "final_state (Inr s) = s"

text \<open>
  A root directory for the examples: two similar customer folders that both hold a child
  named \<open>b.pdf\<close>, a third folder and a plain file. The children are numbered.
\<close>

definition demo_root :: "(string \<times> nat node) list" where
  "demo_root =
     [(''Acme Corp'', Folder [(''a.pdf'', RegularFile, 1), (''b.pdf'', RegularFile, 2)]),
      (''Acme Corporation'', Folder [(''b.pdf'', RegularFile, 3), (''c.pdf'', RegularFile, 4)]),
      (''Globex'', Folder []),
      (''notes.txt'', File)]"



text \<open>A scorer for the examples: 90 for two names with the same first four characters.\<close>

definition demo_ratio :: "string \<Rightarrow> string \<Rightarrow> nat" where
  "demo_ratio a b = (if take 4 a = take 4 b then 90 else 0)"

section \<open>Normalising file names\<close>

text \<open>
  \<^verbatim>\<open>normalize_filename\<close> of \<^verbatim>\<open>duplicate_scanner.py\<close> (lines 51-65).

  \<^verbatim>\<open>Path(filename).stem\<close> is the standard library's (POSIX flavour, Python up to 3.13): the
  path is cut at the slashes, empty components and components \<open>.\<close> are dropped, the name
  is the last component left (the empty string when there is none), and the stem is the
  name up to its last dot when that dot is neither its first nor its last character.
\<close>

fun split_on :: "char \<Rightarrow> string \<Rightarrow> string list" where
  "split_on sep [] = [[]]"
| "split_on sep (x # xs) =
     (if x = sep then [] # split_on sep xs
      else (case split_on sep xs of
              [] \<Rightarrow> [[x]]
            | w # ws \<Rightarrow> (x # w) # ws))"

definition path_name :: "string \<Rightarrow> string" where
  "path_name p =
     (case filter (\<lambda>part. part \<noteq> [] \<and> part \<noteq> ''.'') (split_on CHR ''/'' p) of
        [] \<Rightarrow> []
      | part # parts \<Rightarrow> last (part # parts))"

text \<open>\<^verbatim>\<open>str.rfind\<close> of one character: the index of its last occurrence.\<close>

fun rfind :: "char \<Rightarrow> string \<Rightarrow> nat option" where
  "rfind c [] = None"
| "rfind c (x # xs) =
     (case rfind c xs of
        Some i \<Rightarrow> Some (Suc i)
      | None \<Rightarrow> if x = c then Some 0 else None)"

definition path_stem :: "string \<Rightarrow> string" where
  "path_stem p =
     (let name = path_name p
      in case rfind CHR ''.'' name of
           None \<Rightarrow> name
         | Some i \<Rightarrow> if 0 < i \<and> i < length name - 1 then take i name else name)"

text \<open>
  The two patterns are sequences of character classes, each taken once, zero or more
  times or one or more times, and end with \<^verbatim>\<open>$\<close>. \<open>match_here\<close> is the matcher of \<^verbatim>\<open>re\<close> at
  one position: the repetitions are greedy and give back one character at a time, and
  \<^verbatim>\<open>$\<close> holds at the end of the string and before a line feed that ends the string. The
  result is the length of the match found first. \<open>re_sub\<close> is \<^verbatim>\<open>re.sub(pattern, '', s)\<close>:
  the string is scanned from the left, a match is left out and the scan resumes after it
  (leaving out an empty match changes nothing).
\<close>

datatype quant = One | Star | Plus

fun match_here :: "((char \<Rightarrow> bool) \<times> quant) list \<Rightarrow> string \<Rightarrow> nat option" where
  "match_here [] s = (if s = [] \<or> s = [CHR 0x0A] then Some 0 else None)"
| "match_here ((cls, One) # p) [] = None"
| "match_here ((cls, One) # p) (x # xs) =
     (if cls x then map_option Suc (match_here p xs) else None)"
| "match_here ((cls, Star) # p) [] = match_here p []"
| "match_here ((cls, Star) # p) (x # xs) =
     (if cls x then
        (case match_here ((cls, Star) # p) xs of
           Some n \<Rightarrow> Some (Suc n)
         | None \<Rightarrow> match_here p (x # xs))
      else match_here p (x # xs))"
| "match_here ((cls, Plus) # p) [] = None"
| "match_here ((cls, Plus) # p) (x # xs) =
     (if cls x then map_option Suc (match_here ((cls, Star) # p) xs) else None)"

fun re_sub :: "((char \<Rightarrow> bool) \<times> quant) list \<Rightarrow> string \<Rightarrow> string" where
  "re_sub p [] = []"
| "re_sub p (x # xs) =
     (case match_here p (x # xs) of
        None \<Rightarrow> x # re_sub p xs
      | Some n \<Rightarrow> if n = 0 then x # re_sub p xs else re_sub p (drop (n - 1) xs))"

text \<open>
  The classes of the patterns. With \<^verbatim>\<open>re.IGNORECASE\<close> a letter of the pattern matches a
  character that has the same lower case; \<^verbatim>\<open>\d\<close> is a decimal digit, which below 256 is
  one of \<open>0\<close> to \<open>9\<close>.
\<close>

definition is_digit :: "char \<Rightarrow> bool" where
  "is_digit c = (let n = (of_char c :: nat) in 48 \<le> n \<and> n \<le> 57)"

definition ignorecase :: "char \<Rightarrow> char \<Rightarrow> bool" where
  "ignorecase c x = (lower_char x = lower_char c)"

definition copy_pattern :: "((char \<Rightarrow> bool) \<times> quant) list" where
  "copy_pattern =
     [(is_space, Plus), (ignorecase CHR ''c'', One), (ignorecase CHR ''o'', One),
      (ignorecase CHR ''p'', One), (ignorecase CHR ''y'', One), (is_space, Star),
      (is_digit, Star)]"

definition paren_pattern :: "((char \<Rightarrow> bool) \<times> quant) list" where
  "paren_pattern =
     [(is_space, Plus), ((\<lambda>x. x = CHR ''(''), One), (is_digit, Plus), ((\<lambda>x. x = CHR '')''), One)]"

definition patterns_to_remove :: "((char \<Rightarrow> bool) \<times> quant) list list" where
  "patterns_to_remove = [copy_pattern, paren_pattern]"

definition normalize_filename :: "string \<Rightarrow> string" where
  "normalize_filename filename =
     strip (foldl (\<lambda>normalized pattern. re_sub pattern normalized) (path_stem filename)
              patterns_to_remove)"

text \<open>A pattern matches somewhere in a string.\<close>

fun has_match :: "((char \<Rightarrow> bool) \<times> quant) list \<Rightarrow> string \<Rightarrow> bool" where
  "has_match p [] = (match_here p [] \<noteq> None)"
| "has_match p (x # xs) = (match_here p (x # xs) \<noteq> None \<or> has_match p xs)"

section \<open>The listing of the duplicate scanner\<close>

text \<open>
  The loop of \<^verbatim>\<open>scan_data_files_directory\<close> of \<^verbatim>\<open>duplicate_scanner.py\<close> that collects
  \<^verbatim>\<open>all_files\<close> (lines 80-92), over the same directory listing as the deduplication. The
  dictionary built for a file is a record. As in the deduplication, \<^verbatim>\<open>is_file()\<close> may
  raise, which ends the run, and \<^verbatim>\<open>stat()\<close> succeeds on a file of which \<^verbatim>\<open>is_file()\<close> has
  just held. The script groups, reports and hashes the files of \<^verbatim>\<open>all_files\<close> only, and
  deletes nothing.
\<close>

record file_info =
  info_path :: string
  info_name :: string
  info_size :: nat
  info_modified :: rat
  normalized_name :: string

fun collect_all_files ::
  "dir_entry list \<Rightarrow> file_info list \<Rightarrow> (py_error \<times> file_info list) + file_info list"
where
  "collect_all_files [] all_files = Inr all_files"
| "collect_all_files (file_path # rest) all_files =
     (case is_file file_path of
        Inl e \<Rightarrow> Inl (e, all_files)
      | Inr regular \<Rightarrow>
          collect_all_files rest
            (if regular \<and> \<not> startswith_dot (fname file_path) then
               all_files @
                 [\<lparr>info_path = fname file_path, info_name = fname file_path,
                   info_size = st_size file_path, info_modified = st_mtime file_path,
                   normalized_name = normalize_filename (fname file_path)\<rparr>]
             else all_files))"

section \<open>Size formatting: properties\<close>

lemma scale_size_closed:
  "scale_size s 0 =
     (if s < 1024 then (s, 0) else if s < 1024 ^ 2 then (s / 1024, 1)
      else if s < 1024 ^ 3 then (s / 1024 ^ 2, 2) else (s / 1024 ^ 3, 3))"
  apply (subst scale_size.simps)
  apply (subst scale_size.simps)
  apply (subst scale_size.simps)
  apply (subst scale_size.simps)
  apply (simp add: size_names_def)
  done

lemma round_half_even_near: "\<bar>of_int (round_half_even q) - q\<bar> \<le> 1 / 2"
  unfolding round_half_even_def Let_def
  by (auto simp: abs_if; linarith)

lemma round_half_even_nonneg: "0 \<le> q \<Longrightarrow> 0 \<le> round_half_even q"
  unfolding round_half_even_def Let_def
  by auto

lemma show_nat_small: "n < 10 \<Longrightarrow> show_nat n = [digit_char n]"
  by (simp add: show_nat.simps)

lemma format_1f_shape:
  assumes "0 \<le> v"
  shows "\<exists>t::nat. \<bar>of_nat t / 10 - v\<bar> \<le> 1 / 20 \<and>
           format_1f v = show_nat (t div 10) @ ''.'' @ [digit_char (t mod 10)]"
proof -
  define r where "r = round_half_even (v * 10)"
  have r0: "0 \<le> r" unfolding r_def using assms by (intro round_half_even_nonneg) simp
  have near: "\<bar>of_int r - v * 10\<bar> \<le> 1 / 2"
    unfolding r_def by (rule round_half_even_near)
  have cast: "(of_nat (nat r) :: rat) = of_int r" using r0 by simp
  have "\<bar>of_nat (nat r) / 10 - v\<bar> = \<bar>of_int r - v * 10\<bar> / 10"
    unfolding cast by (simp add: abs_if field_simps)
  also have "\<dots> \<le> (1 / 2) / 10" using near by (simp add: divide_right_mono)
  finally have "\<bar>of_nat (nat r) / 10 - v\<bar> \<le> 1 / 20" by simp
  moreover have "format_1f v = show_nat (nat r div 10) @ ''.'' @ [digit_char (nat r mod 10)]"
    unfolding format_1f_def r_def Let_def ..
  ultimately show ?thesis by blast
qed

lemma format_size_positive:
  assumes "0 < n"
  shows "\<exists>i t. i < 4 \<and> (i < 3 \<longrightarrow> n < 1024 ^ (i + 1)) \<and> (0 < i \<longrightarrow> 1024 ^ i \<le> n) \<and>
           \<bar>rat_of_nat t / 10 - rat_of_nat n / 1024 ^ i\<bar> \<le> 1 / 20 \<and>
           format_size n = show_nat (t div 10) @ ''.'' @ [digit_char (t mod 10)] @ '' '' @
                             [''B'', ''KB'', ''MB'', ''GB''] ! i"
proof -
  define i :: nat where
    "i = (if n < 1024 then 0 else if n < 1024 ^ 2 then 1 else if n < 1024 ^ 3 then 2 else 3)"
  have lt: "\<And>k::nat. (rat_of_nat n < 1024 ^ k) = (n < 1024 ^ k)"
    by (metis of_nat_less_iff of_nat_numeral of_nat_power)
  have lt1: "(rat_of_nat n < 1024) = (n < 1024)" using lt [of 1] by simp
  have sc: "scale_size (of_nat n) 0 = (of_nat n / 1024 ^ i, i)"
    unfolding scale_size_closed i_def lt lt1 by simp
  have "(0::rat) \<le> of_nat n / 1024 ^ i" by simp
  from format_1f_shape [OF this] obtain t :: nat where
    t: "\<bar>of_nat t / 10 - rat_of_nat n / 1024 ^ i\<bar> \<le> 1 / 20"
       "format_1f (of_nat n / 1024 ^ i) = show_nat (t div 10) @ ''.'' @ [digit_char (t mod 10)]"
    by blast
  have fs: "format_size n = format_1f (of_nat n / 1024 ^ i) @ '' '' @ size_names ! i"
    using assms by (simp add: format_size_def sc)
  have b1: "i < 4" by (simp add: i_def)
  have b2: "i < 3 \<longrightarrow> n < 1024 ^ (i + 1)" by (simp add: i_def)
  have b3: "0 < i \<longrightarrow> 1024 ^ i \<le> n" by (simp add: i_def)
  have b4: "format_size n = show_nat (t div 10) @ ''.'' @ [digit_char (t mod 10)] @ '' '' @
                             [''B'', ''KB'', ''MB'', ''GB''] ! i"
    unfolding fs t(2) size_names_def by simp
  show ?thesis
    by (rule exI [of _ i], rule exI [of _ t], intro conjI)
       (fact b1, fact b2, fact b3, fact t(1), fact b4)
qed

lemmas format_size_eval =
  format_size_def scale_size_closed format_1f_def round_half_even_def size_names_def
  digit_char_def Let_def show_nat_small

text \<open>
  Claim C9. Size formatting is binary with one decimal place: a size of zero bytes is
  \<open>0 B\<close>, 1536 bytes are \<open>1.5 KB\<close>, 1073741824 bytes are \<open>1.0 GB\<close>; and every positive size
  \<open>n\<close> below \<open>2 ^ 53\<close> is shown as a decimal numeral with exactly one digit after the point, a
  space, and the unit \<open>B\<close>, \<open>KB\<close>, \<open>MB\<close> or \<open>GB\<close> of index \<open>i\<close>, where \<open>i\<close> is the number of
  times 1024 divides into \<open>n\<close> (at most three) and the numeral is within one twentieth of
  \<open>n / 1024 ^ i\<close>.
\<close>

theorem format_size_binary_one_decimal:
  "format_size 0 = ''0 B'' \<and> format_size 1536 = ''1.5 KB'' \<and>
   format_size 1073741824 = ''1.0 GB'' \<and>
   (\<forall>n. 0 < n \<and> n < 2 ^ 53 \<longrightarrow>
      (\<exists>i t. i < 4 \<and> (i < 3 \<longrightarrow> n < 1024 ^ (i + 1)) \<and> (0 < i \<longrightarrow> 1024 ^ i \<le> n) \<and>
         \<bar>rat_of_nat t / 10 - rat_of_nat n / 1024 ^ i\<bar> \<le> 1 / 20 \<and>
         format_size n = show_nat (t div 10) @ ''.'' @ [digit_char (t mod 10)] @ '' '' @
                           [''B'', ''KB'', ''MB'', ''GB''] ! i))"
proof (intro conjI allI impI)
  show "format_size 0 = ''0 B''" by (simp add: format_size_def)
  show "format_size 1536 = ''1.5 KB''" by (simp add: format_size_eval)
  show "format_size 1073741824 = ''1.0 GB''" by (simp add: format_size_eval)
next
  fix n :: nat
  assume "0 < n \<and> n < 2 ^ 53"
  then have "0 < n" by simp
  then show "\<exists>i t. i < 4 \<and> (i < 3 \<longrightarrow> n < 1024 ^ (i + 1)) \<and> (0 < i \<longrightarrow> 1024 ^ i \<le> n) \<and>
         \<bar>rat_of_nat t / 10 - rat_of_nat n / 1024 ^ i\<bar> \<le> 1 / 20 \<and>
         format_size n = show_nat (t div 10) @ ''.'' @ [digit_char (t mod 10)] @ '' '' @
                           [''B'', ''KB'', ''MB'', ''GB''] ! i"
    by (rule format_size_positive)
qed

theorem format_size_binary_one_decimal_witness:
  "(0::nat) < 2048 \<and> (2048::nat) < 2 ^ 53 \<and>
   (\<exists>i t. i < 4 \<and> (i < 3 \<longrightarrow> (2048::nat) < 1024 ^ (i + 1)) \<and> (0 < i \<longrightarrow> 1024 ^ i \<le> (2048::nat)) \<and>
      \<bar>rat_of_nat t / 10 - rat_of_nat 2048 / 1024 ^ i\<bar> \<le> 1 / 20 \<and>
      format_size 2048 = show_nat (t div 10) @ ''.'' @ [digit_char (t mod 10)] @ '' '' @
                           [''B'', ''KB'', ''MB'', ''GB''] ! i) \<and>
   format_size 2048 = ''2.0 KB''"
proof -
  have h: "(0::nat) < 2048 \<and> (2048::nat) < 2 ^ 53" by simp
  have e: "format_size 2048 = ''2.0 KB''" by (simp add: format_size_eval)
  from format_size_binary_one_decimal have
    "\<forall>n. 0 < n \<and> n < 2 ^ 53 \<longrightarrow>
      (\<exists>i t. i < 4 \<and> (i < 3 \<longrightarrow> n < 1024 ^ (i + 1)) \<and> (0 < i \<longrightarrow> 1024 ^ i \<le> n) \<and>
         \<bar>rat_of_nat t / 10 - rat_of_nat n / 1024 ^ i\<bar> \<le> 1 / 20 \<and>
         format_size n = show_nat (t div 10) @ ''.'' @ [digit_char (t mod 10)] @ '' '' @
                           [''B'', ''KB'', ''MB'', ''GB''] ! i)"
    by (elim conjE)
  from this [rule_format, OF h] h e show ?thesis by (intro conjI) simp_all
qed


section \<open>Deduplication: properties\<close>

subsection \<open>The descending stable sort\<close>

lemma set_insort_desc: "set (insort_desc key x ys) = insert x (set ys)"
  by (induction ys) auto

lemma set_sort_desc: "set (sort_desc key xs) = set xs"
  unfolding sort_desc_def by (induction xs) (simp_all add: set_insort_desc)

lemma length_insort_desc: "length (insort_desc key x ys) = Suc (length ys)"
  by (induction ys) auto

lemma length_sort_desc: "length (sort_desc key xs) = length xs"
  unfolding sort_desc_def by (induction xs) (simp_all add: length_insort_desc)

lemma distinct_map_insort_desc:
  "distinct (map f (insort_desc key x ys)) = (f x \<notin> f ` set ys \<and> distinct (map f ys))"
  by (induction ys) (auto simp: set_insort_desc)

lemma distinct_map_sort_desc: "distinct (map f (sort_desc key xs)) = distinct (map f xs)"
proof (induction xs)
  case Nil
  then show ?case by (simp add: sort_desc_def)
next
  case (Cons x xs)
  have "sort_desc key (x # xs) = insort_desc key x (sort_desc key xs)"
    by (simp add: sort_desc_def)
  then show ?case using Cons by (simp add: distinct_map_insort_desc set_sort_desc)
qed

lemma sorted_insort_desc:
  "sorted_wrt (\<lambda>a b. key b \<le> key a) ys \<Longrightarrow> sorted_wrt (\<lambda>a b. key b \<le> key a) (insort_desc key x ys)"
  by (induction ys) (auto simp: set_insort_desc)

lemma sorted_sort_desc: "sorted_wrt (\<lambda>a b. key b \<le> key a) (sort_desc key xs)"
proof (induction xs)
  case Nil
  then show ?case by (simp add: sort_desc_def)
next
  case (Cons x xs)
  have "sort_desc key (x # xs) = insort_desc key x (sort_desc key xs)"
    by (simp add: sort_desc_def)
  then show ?case using Cons by (simp add: sorted_insort_desc)
qed

lemma sort_desc_first_max:
  assumes "x \<in> set xs"
  shows "key x \<le> key (sort_desc key xs ! 0)"
proof -
  have "x \<in> set (sort_desc key xs)" using assms by (simp add: set_sort_desc)
  then obtain y ys where s: "sort_desc key xs = y # ys" by (cases "sort_desc key xs") auto
  from sorted_sort_desc [of key xs] have "\<forall>z\<in>set ys. key z \<le> key y" unfolding s by simp
  moreover from \<open>x \<in> set (sort_desc key xs)\<close> have "x = y \<or> x \<in> set ys" unfolding s by simp
  ultimately show ?thesis unfolding s by auto
qed

lemma sort_desc_first_in: "xs \<noteq> [] \<Longrightarrow> sort_desc key xs ! 0 \<in> set xs"
proof -
  assume "xs \<noteq> []"
  then have "sort_desc key xs \<noteq> []" using length_sort_desc [of key xs] by auto
  then have "sort_desc key xs ! 0 \<in> set (sort_desc key xs)" by (cases "sort_desc key xs") auto
  then show ?thesis by (simp add: set_sort_desc)
qed

lemma first_not_in_rest:
  assumes "distinct (map f xs)" and "y \<in> set (drop 1 xs)"
  shows "f y \<noteq> f (xs ! 0)"
  using assms by (cases xs) (auto simp: image_iff)

subsection \<open>The dictionary of groups\<close>

lemma map_of_setdefault_append:
  "map_of (setdefault_append k v d) =
     (map_of d)(k \<mapsto> (case map_of d k of None \<Rightarrow> [v] | Some vs \<Rightarrow> vs @ [v]))"
  by (induction d) (auto simp: fun_eq_iff)

lemma keys_setdefault_append:
  "fst ` set (setdefault_append k v d) = insert k (fst ` set d)"
proof (induction d)
  case Nil
  show ?case by simp
next
  case (Cons p d)
  obtain k' vs where p: "p = (k', vs)" by (cases p)
  show ?case
  proof (cases "k = k'")
    case True
    then show ?thesis by (simp add: p)
  next
    case False
    then show ?thesis using Cons.IH by (simp add: p insert_commute)
  qed
qed

lemma distinct_setdefault_append:
  "distinct (map fst d) \<Longrightarrow> distinct (map fst (setdefault_append k v d))"
  by (induction d) (auto simp: keys_setdefault_append)

lemma group_of_setdefault_append:
  "group_of (setdefault_append k v d) k' = (if k' = k then group_of d k @ [v] else group_of d k')"
  by (simp add: group_of_def map_of_setdefault_append split: option.splits)

subsection \<open>The content hasher\<close>

lemma read_chunks_total: "(\<exists>err. read_chunks reads fed = Inl err) \<or> (\<exists>bytes. read_chunks reads fed = Inr bytes)"
  by (cases "read_chunks reads fed") auto

lemma calculate_file_hash_failure:
  "read_content e = Inl err \<Longrightarrow> calculate_file_hash md5 e = (None, [PrintErrorReading (fname e)])"
  by (simp add: calculate_file_hash_def)

lemma calculate_file_hash_success:
  "read_content e = Inr fed \<Longrightarrow> calculate_file_hash md5 e = (Some (md5 fed), [])"
  by (simp add: calculate_file_hash_def)

lemma digest_None_iff: "digest md5 e = None \<longleftrightarrow> (\<exists>err. read_content e = Inl err)"
  by (cases "read_content e") (simp_all add: digest_def calculate_file_hash_def)

lemma unreadable_iff: "unreadable e \<longleftrightarrow> scanned e \<and> digest md5 e = None"
  by (cases "read_content e") (simp_all add: unreadable_def digest_def calculate_file_hash_def)

lemma printed_of_digest:
  "snd (calculate_file_hash md5 e) =
     (case digest md5 e of None \<Rightarrow> [PrintErrorReading (fname e)] | Some h \<Rightarrow> [])"
  by (cases "read_content e") (simp_all add: digest_def calculate_file_hash_def)

subsection \<open>The scanning loop\<close>

lemma reached_Cons:
  "reached (e # es) = (if is_file_returns e then e # reached es else [])"
  by (simp add: reached_def)

lemma reached_all: "list_all is_file_returns es \<Longrightarrow> reached es = es"
  by (simp add: reached_def list_all_iff)

lemma reached_subset: "set (reached es) \<subseteq> set es"
  unfolding reached_def by (auto dest: set_takeWhileD)

lemma hash_group_Cons:
  "hash_group md5 h (e # es) =
     (if scanned e \<and> digest md5 e = Some h then e # hash_group md5 h es else hash_group md5 h es)"
  by (simp add: hash_group_def)

lemma scan_files_Cons:
  "scan_files md5 (e # es) fh tr =
     (if \<not> is_file_returns e then Inl (projl (is_file e), fh, tr)
      else if scanned e then
        (case digest md5 e of
           None \<Rightarrow> scan_files md5 es fh (tr @ scan_events md5 e)
         | Some h \<Rightarrow> scan_files md5 es (setdefault_append h (e, st_mtime e) fh) (tr @ scan_events md5 e))
      else scan_files md5 es fh (tr @ scan_events md5 e))"
proof (cases "is_file e")
  case (Inl err)
  then show ?thesis by (simp add: is_file_returns_def)
next
  case (Inr regular)
  obtain r printed where c: "calculate_file_hash md5 e = (r, printed)"
    by (cases "calculate_file_hash md5 e")
  show ?thesis
    using Inr c by (cases r) (auto simp: is_file_returns_def scanned_def scan_events_def digest_def)
qed

lemma scan_files_groups:
  "group_of (fst (ending (scan_files md5 es fh tr))) h =
     group_of fh h @ map (\<lambda>e. (e, st_mtime e)) (hash_group md5 h (reached es))"
proof (induction es arbitrary: fh tr)
  case Nil
  then show ?case by (simp add: reached_def hash_group_def)
next
  case (Cons e es)
  show ?case
    unfolding scan_files_Cons reached_Cons
    by (auto simp: Cons.IH hash_group_Cons hash_group_def group_of_setdefault_append
             split: option.splits)
qed

lemma scan_files_distinct:
  "distinct (map fst fh) \<Longrightarrow> distinct (map fst (fst (ending (scan_files md5 es fh tr))))"
proof (induction es arbitrary: fh tr)
  case Nil
  then show ?case by simp
next
  case (Cons e es)
  show ?case
    unfolding scan_files_Cons
    using Cons.prems by (auto simp: Cons.IH distinct_setdefault_append split: option.splits)
qed

lemma scan_files_trace:
  "snd (ending (scan_files md5 es fh tr)) = tr @ concat (map (scan_events md5) (reached es))"
proof (induction es arbitrary: fh tr)
  case Nil
  then show ?case by (simp add: reached_def)
next
  case (Cons e es)
  show ?case
    unfolding scan_files_Cons reached_Cons
    by (auto simp: Cons.IH scan_events_def split: option.splits)
qed

lemma scan_files_completes:
  "list_all is_file_returns es \<Longrightarrow>
   scan_files md5 es fh tr = Inr (ending (scan_files md5 es fh tr))"
proof (induction es arbitrary: fh tr)
  case Nil
  then show ?case by simp
next
  case (Cons e es)
  from Cons.prems have e: "is_file_returns e" and es: "list_all is_file_returns es" by simp_all
  show ?case
    unfolding scan_files_Cons
    using e Cons.IH [OF es] by (auto split: option.splits)
qed

lemma scan_files_aborts:
  "\<not> list_all is_file_returns es \<Longrightarrow>
   \<exists>err. scan_files md5 es fh tr = Inl (err, ending (scan_files md5 es fh tr))"
proof (induction es arbitrary: fh tr)
  case Nil
  then show ?case by simp
next
  case (Cons e es)
  show ?case
  proof (cases "is_file_returns e")
    case False
    then show ?thesis unfolding scan_files_Cons by simp
  next
    case True
    with Cons.prems have "\<not> list_all is_file_returns es" by simp
    from Cons.IH [OF this] True show ?thesis
      unfolding scan_files_Cons by (auto split: option.splits)
  qed
qed

lemma group_of_member:
  "distinct (map fst d) \<Longrightarrow> (k, vs) \<in> set d \<Longrightarrow> group_of d k = vs"
  by (simp add: group_of_def)

lemma group_of_nonempty_member:
  "group_of d k \<noteq> [] \<Longrightarrow> (k, group_of d k) \<in> set d"
  by (auto simp: group_of_def split: option.splits dest: map_of_SomeD)

subsection \<open>The deletion loop\<close>

lemma delete_files_out_mono: "set (out s) \<subseteq> set (out (delete_files fs s))"
  by (induction fs arbitrary: s) (auto simp: subset_iff)

lemma delete_files_remove:
  "OsRemove n \<in> set (out (delete_files fs s)) \<Longrightarrow>
   OsRemove n \<in> set (out s) \<or> n \<in> fname ` set fs"
proof (induction fs arbitrary: s)
  case Nil
  then show ?case by simp
next
  case (Cons f fs)
  from Cons.IH [OF Cons.prems [simplified delete_files.simps]]
  show ?case by (auto split: if_splits)
qed

lemma delete_files_calc:
  "CalcHash n \<in> set (out (delete_files fs s)) \<Longrightarrow> CalcHash n \<in> set (out s)"
proof (induction fs arbitrary: s)
  case Nil
  then show ?case by simp
next
  case (Cons f fs)
  from Cons.IH [OF Cons.prems [simplified delete_files.simps]]
  show ?case by (auto split: if_splits)
qed

lemma delete_files_keeps:
  "e \<in> set (folder s) \<Longrightarrow> fname e \<notin> fname ` set fs \<Longrightarrow> e \<in> set (folder (delete_files fs s))"
  by (induction fs arbitrary: s) auto

lemma delete_files_folder_subset: "set (folder (delete_files fs s)) \<subseteq> set (folder s)"
proof (induction fs arbitrary: s)
  case Nil
  then show ?case by simp
next
  case (Cons f fs)
  have "set (folder (delete_files (f # fs) s)) \<subseteq>
        set (folder (if fname f \<notin> fname ` set (folder s) then
          s\<lparr>out := out s @ [PrintErrorDeleting (fname f)]\<rparr>
        else if \<not> removable f then
          s\<lparr>out := out s @ [OsRemove (fname f), PrintErrorDeleting (fname f)]\<rparr>
        else
          s\<lparr>folder := filter (\<lambda>e. fname e \<noteq> fname f) (folder s),
            out := out s @ [OsRemove (fname f), PrintDeleted (fname f)],
            total_removed := total_removed s + 1,
            total_space := total_space s + st_size f\<rparr>))"
    unfolding delete_files.simps by (rule Cons.IH)
  also have "\<dots> \<subseteq> set (folder s)" by auto
  finally show ?case .
qed

subsection \<open>The loop over the groups\<close>

lemma process_groups_Cons:
  "process_groups ((h, files) # rest) s =
     process_groups rest
       (if length files > 1 then
          delete_files (deletions files)
            (s\<lparr>out := out s @ [PrintDuplicateGroup h (fname (fst (sort_desc snd files ! 0)))]\<rparr>)
        else s)"
  by (simp add: deletions_def Let_def)

lemma process_groups_out_mono: "set (out s) \<subseteq> set (out (process_groups fh s))"
proof (induction fh arbitrary: s)
  case Nil
  then show ?case by simp
next
  case (Cons p fh)
  obtain h files where p: "p = (h, files)" by (cases p)
  show ?case
  proof (cases "length files > 1")
    case True
    have "set (out s) \<subseteq> set (out (s\<lparr>out := out s @ [PrintDuplicateGroup h (fname (fst (sort_desc snd files ! 0)))]\<rparr>))"
      by auto
    also have "\<dots> \<subseteq> set (out (delete_files (deletions files)
            (s\<lparr>out := out s @ [PrintDuplicateGroup h (fname (fst (sort_desc snd files ! 0)))]\<rparr>)))"
      by (rule delete_files_out_mono)
    also have "\<dots> \<subseteq> set (out (process_groups (p # fh) s))"
      unfolding p process_groups_Cons using True Cons.IH by simp
    finally show ?thesis .
  next
    case False
    then show ?thesis unfolding p process_groups_Cons using Cons.IH by simp
  qed
qed

lemma process_groups_remove:
  "OsRemove n \<in> set (out (process_groups fh s)) \<Longrightarrow>
   OsRemove n \<in> set (out s) \<or> (\<exists>(h, files)\<in>set fh. n \<in> fname ` set (deletions files))"
proof (induction fh arbitrary: s)
  case Nil
  then show ?case by simp
next
  case (Cons p fh)
  obtain h files where p: "p = (h, files)" by (cases p)
  show ?case
  proof (cases "length files > 1")
    case True
    from Cons.prems have "OsRemove n \<in> set (out (process_groups fh (delete_files (deletions files)
            (s\<lparr>out := out s @ [PrintDuplicateGroup h (fname (fst (sort_desc snd files ! 0)))]\<rparr>))))"
      unfolding p process_groups_Cons using True by simp
    from Cons.IH [OF this] show ?thesis
    proof
      assume "OsRemove n \<in> set (out (delete_files (deletions files)
            (s\<lparr>out := out s @ [PrintDuplicateGroup h (fname (fst (sort_desc snd files ! 0)))]\<rparr>)))"
      from delete_files_remove [OF this] show ?thesis by (auto simp: p)
    next
      assume "\<exists>(h, files)\<in>set fh. n \<in> fname ` set (deletions files)"
      then show ?thesis by auto
    qed
  next
    case False
    from Cons.prems have "OsRemove n \<in> set (out (process_groups fh s))"
      unfolding p process_groups_Cons using False by simp
    from Cons.IH [OF this] show ?thesis by auto
  qed
qed

lemma process_groups_calc:
  "CalcHash n \<in> set (out (process_groups fh s)) \<Longrightarrow> CalcHash n \<in> set (out s)"
proof (induction fh arbitrary: s)
  case Nil
  then show ?case by simp
next
  case (Cons p fh)
  obtain h files where p: "p = (h, files)" by (cases p)
  show ?case
  proof (cases "length files > 1")
    case True
    from Cons.prems have "CalcHash n \<in> set (out (process_groups fh (delete_files (deletions files)
            (s\<lparr>out := out s @ [PrintDuplicateGroup h (fname (fst (sort_desc snd files ! 0)))]\<rparr>))))"
      unfolding p process_groups_Cons using True by simp
    from delete_files_calc [OF Cons.IH [OF this]] show ?thesis by simp
  next
    case False
    from Cons.prems have "CalcHash n \<in> set (out (process_groups fh s))"
      unfolding p process_groups_Cons using False by simp
    from Cons.IH [OF this] show ?thesis .
  qed
qed

lemma process_groups_announces:
  "(h, files) \<in> set fh \<Longrightarrow> length files > 1 \<Longrightarrow>
   PrintDuplicateGroup h (fname (fst (sort_desc snd files ! 0))) \<in> set (out (process_groups fh s))"
proof (induction fh arbitrary: s)
  case Nil
  then show ?case by simp
next
  case (Cons p fh)
  show ?case
  proof (cases "p = (h, files)")
    case True
    let ?s1 = "s\<lparr>out := out s @ [PrintDuplicateGroup h (fname (fst (sort_desc snd files ! 0)))]\<rparr>"
    have "PrintDuplicateGroup h (fname (fst (sort_desc snd files ! 0))) \<in> set (out ?s1)" by simp
    then have "PrintDuplicateGroup h (fname (fst (sort_desc snd files ! 0))) \<in>
                 set (out (delete_files (deletions files) ?s1))"
      using delete_files_out_mono by blast
    then have "PrintDuplicateGroup h (fname (fst (sort_desc snd files ! 0))) \<in>
                 set (out (process_groups fh (delete_files (deletions files) ?s1)))"
      using process_groups_out_mono by blast
    then show ?thesis unfolding True process_groups_Cons using Cons.prems(2) by simp
  next
    case False
    with Cons.prems have m: "(h, files) \<in> set fh" by simp
    obtain h' files' where p: "p = (h', files')" by (cases p)
    show ?thesis unfolding p process_groups_Cons
      by (rule Cons.IH [OF m Cons.prems(2)])
  qed
qed

lemma process_groups_keeps:
  "e \<in> set (folder s) \<Longrightarrow> \<forall>(h, files)\<in>set fh. fname e \<notin> fname ` set (deletions files) \<Longrightarrow>
   e \<in> set (folder (process_groups fh s))"
proof (induction fh arbitrary: s)
  case Nil
  then show ?case by simp
next
  case (Cons p fh)
  obtain h files where p: "p = (h, files)" by (cases p)
  from Cons.prems(2) have rest: "\<forall>(h, files)\<in>set fh. fname e \<notin> fname ` set (deletions files)"
    and this_one: "fname e \<notin> fname ` set (deletions files)" by (auto simp: p)
  show ?case
  proof (cases "length files > 1")
    case True
    let ?s1 = "s\<lparr>out := out s @ [PrintDuplicateGroup h (fname (fst (sort_desc snd files ! 0)))]\<rparr>"
    have "e \<in> set (folder ?s1)" using Cons.prems(1) by simp
    from delete_files_keeps [OF this this_one]
    have "e \<in> set (folder (delete_files (deletions files) ?s1))" .
    from Cons.IH [OF this rest] show ?thesis unfolding p process_groups_Cons using True by simp
  next
    case False
    from Cons.IH [OF Cons.prems(1) rest] show ?thesis
      unfolding p process_groups_Cons using False by simp
  qed
qed

subsection \<open>The kept file of a group\<close>

text \<open>The run on a directory, in the terms of the lemmas above: a run that completes.\<close>

lemma deduplicate_folder_run:
  assumes "list_all is_file_returns entries"
  obtains s1 where
    "deduplicate_folder md5 (Directory entries) =
       Inr (s1\<lparr>out := out s1 @ [PrintComplete (total_removed s1) (format_size (total_space s1))]\<rparr>)"
    "s1 = process_groups (fst (ending (scan_files md5 entries [] [PrintScanning])))
            \<lparr>folder = entries, out = PrintScanning # concat (map (scan_events md5) entries),
              total_removed = 0, total_space = 0\<rparr>"
proof -
  obtain fh tr where e: "ending (scan_files md5 entries [] [PrintScanning]) = (fh, tr)"
    by (cases "ending (scan_files md5 entries [] [PrintScanning])")
  from scan_files_completes [OF assms, of md5 "[]" "[PrintScanning]"] e
  have sc: "scan_files md5 entries [] [PrintScanning] = Inr (fh, tr)" by simp
  from scan_files_trace [of md5 entries "[]" "[PrintScanning]"] e reached_all [OF assms]
  have tr: "tr = PrintScanning # concat (map (scan_events md5) entries)" by simp
  show ?thesis
    by (rule that [of "process_groups fh
            \<lparr>folder = entries, out = tr, total_removed = 0, total_space = 0\<rparr>"])
       (simp_all add: deduplicate_folder_def sc e tr Let_def)
qed

text \<open>A run that \<^verbatim>\<open>is_file()\<close> stops: nothing but the scan of the entries reached has happened.\<close>

lemma deduplicate_folder_stopped:
  assumes "\<not> list_all is_file_returns entries"
  obtains err where
    "deduplicate_folder md5 (Directory entries) =
       Inl (err, \<lparr>folder = entries,
                  out = PrintScanning # concat (map (scan_events md5) (reached entries)),
                  total_removed = 0, total_space = 0\<rparr>)"
proof -
  obtain fh tr where e: "ending (scan_files md5 entries [] [PrintScanning]) = (fh, tr)"
    by (cases "ending (scan_files md5 entries [] [PrintScanning])")
  from scan_files_aborts [OF assms, of md5 "[]" "[PrintScanning]"] e obtain err where
    sc: "scan_files md5 entries [] [PrintScanning] = Inl (err, fh, tr)" by auto
  from scan_files_trace [of md5 entries "[]" "[PrintScanning]"] e
  have tr: "tr = PrintScanning # concat (map (scan_events md5) (reached entries))" by simp
  show ?thesis
    by (rule that [of err]) (simp add: deduplicate_folder_def sc tr)
qed

lemma scan_events_no_remove: "OsRemove n \<notin> set (concat (map (scan_events md5) es))"
  by (induction es) (auto simp: scan_events_def printed_of_digest split: option.splits)

lemma scan_files_group_member:
  assumes "(h, files) \<in> set (fst (ending (scan_files md5 entries [] tr)))"
  shows "files = map (\<lambda>e. (e, st_mtime e)) (hash_group md5 h (reached entries))"
proof -
  have d: "distinct (map fst (fst (ending (scan_files md5 entries [] tr))))"
    by (rule scan_files_distinct) simp
  from group_of_member [OF d assms] scan_files_groups [of md5 entries "[]" tr h]
  show ?thesis by (simp add: group_of_def)
qed

lemma scan_files_has_group:
  assumes "hash_group md5 h (reached entries) \<noteq> []"
  shows "(h, map (\<lambda>e. (e, st_mtime e)) (hash_group md5 h (reached entries)))
           \<in> set (fst (ending (scan_files md5 entries [] tr)))"
proof -
  have g: "group_of (fst (ending (scan_files md5 entries [] tr))) h =
             map (\<lambda>e. (e, st_mtime e)) (hash_group md5 h (reached entries))"
    using scan_files_groups [of md5 entries "[]" tr h] by (simp add: group_of_def)
  then have "group_of (fst (ending (scan_files md5 entries [] tr))) h \<noteq> []" using assms by simp
  from group_of_nonempty_member [OF this] show ?thesis unfolding g .
qed

lemma hash_group_subset: "set (hash_group md5 h entries) \<subseteq> set entries"
  by (auto simp: hash_group_def)

lemma hash_group_digest:
  "e \<in> set (hash_group md5 h entries) \<Longrightarrow> digest md5 e = Some h \<and> scanned e"
  by (auto simp: hash_group_def)

lemma deletions_subset: "set (deletions files) \<subseteq> fst ` set files"
proof -
  have "set (drop 1 (sort_desc snd files)) \<subseteq> set files"
    using set_drop_subset [of 1 "sort_desc snd files"] by (simp add: set_sort_desc)
  then show ?thesis by (auto simp: deletions_def)
qed

lemma same_name_same_entry:
  "distinct (map fname es) \<Longrightarrow> a \<in> set es \<Longrightarrow> b \<in> set es \<Longrightarrow> fname a = fname b \<Longrightarrow> a = b"
  by (auto simp: distinct_map inj_on_def)

lemma keeper_not_in_own_deletions:
  assumes "distinct (map fname entries)"
  shows "fname (fst (sort_desc snd (map (\<lambda>e. (e, st_mtime e)) (hash_group md5 h entries)) ! 0))
           \<notin> fname ` set (deletions (map (\<lambda>e. (e, st_mtime e)) (hash_group md5 h entries)))"
proof
  let ?files = "map (\<lambda>e. (e, st_mtime e)) (hash_group md5 h entries)"
  assume a: "fname (fst (sort_desc snd ?files ! 0)) \<in> fname ` set (deletions ?files)"
  then have len: "length ?files > 1" by (auto simp: deletions_def split: if_splits)
  from a len obtain y where y: "y \<in> set (drop 1 (sort_desc snd ?files))"
    "fname (fst y) = fname (fst (sort_desc snd ?files ! 0))"
    by (auto simp: deletions_def)
  have "distinct (map fname (hash_group md5 h entries))"
    unfolding hash_group_def using assms by (rule distinct_map_filter)
  then have "distinct (map (fname \<circ> fst) ?files)" by (simp add: comp_def)
  then have "distinct (map (fname \<circ> fst) (sort_desc snd ?files))"
    by (simp only: distinct_map_sort_desc)
  from first_not_in_rest [OF this y(1)] y(2) show False by simp
qed

lemma keeper_not_in_any_deletions:
  assumes dist: "distinct (map fname entries)"
    and all: "list_all is_file_returns entries"
    and grp: "hash_group md5 h entries \<noteq> []"
    and mem: "(h', files') \<in> set (fst (ending (scan_files md5 entries [] tr)))"
  shows "fname (fst (sort_desc snd (map (\<lambda>e. (e, st_mtime e)) (hash_group md5 h entries)) ! 0))
           \<notin> fname ` set (deletions files')"
proof
  let ?files = "map (\<lambda>e. (e, st_mtime e)) (hash_group md5 h entries)"
  let ?keep = "fst (sort_desc snd ?files ! 0)"
  assume "fname ?keep \<in> fname ` set (deletions files')"
  then obtain e' where e': "e' \<in> set (deletions files')" "fname e' = fname ?keep" by auto
  have f': "files' = map (\<lambda>e. (e, st_mtime e)) (hash_group md5 h' entries)"
    using scan_files_group_member [OF mem] reached_all [OF all] by simp
  from e'(1) deletions_subset [of files'] have "e' \<in> fst ` set files'" by blast
  then have e'g: "e' \<in> set (hash_group md5 h' entries)" unfolding f' by auto
  have "?files \<noteq> []" using grp by simp
  from sort_desc_first_in [OF this, of snd] have "?keep \<in> fst ` set ?files" by simp
  then have kg: "?keep \<in> set (hash_group md5 h entries)" by auto
  from e'g kg hash_group_subset have "e' \<in> set entries" "?keep \<in> set entries" by blast+
  from same_name_same_entry [OF dist this e'(2)] have eq: "e' = ?keep" .
  from hash_group_digest [OF e'g] hash_group_digest [OF kg] eq have "h' = h" by simp
  with e'(1) eq f' have "fname ?keep \<in> fname ` set (deletions ?files)" by auto
  with keeper_not_in_own_deletions [OF dist, of md5 h] show False by simp
qed

subsection \<open>Whole runs\<close>

lemma invoice_digest: "take 4 invoice_bytes = ''d41d''"
  by (simp add: invoice_bytes_def)

lemma invoice_nonempty: "invoice_bytes \<noteq> []"
  by (simp add: invoice_bytes_def)

lemma demo_run:
  "deduplicate_folder demo_md5 (Directory demo_folder) =
     Inr \<lparr>folder =
            [\<lparr>fname = ''Invoice_copy.pdf'', is_file = Inr True,
               open_rb = Inr [ReadReturns invoice_bytes, ReadReturns []],
               st_mtime = 20, st_size = 1536, removable = True\<rparr>,
             \<lparr>fname = ''Notes.txt'', is_file = Inr True,
               open_rb = Inr [ReadReturns ''9e107d9'', ReadReturns []],
               st_mtime = 5, st_size = 7, removable = True\<rparr>,
             \<lparr>fname = ''.DS_Store'', is_file = Inr True,
               open_rb = Inr [ReadReturns invoice_bytes, ReadReturns []],
               st_mtime = 30, st_size = 1536, removable = True\<rparr>,
             \<lparr>fname = ''Locked.pdf'', is_file = Inr True, open_rb = Inl PermissionError,
               st_mtime = 40, st_size = 99, removable = True\<rparr>],
          out = [PrintScanning, CalcHash ''Invoice.pdf'', CalcHash ''Invoice_copy.pdf'',
                 CalcHash ''Notes.txt'', CalcHash ''Locked.pdf'', PrintErrorReading ''Locked.pdf'',
                 PrintDuplicateGroup ''d41d'' ''Invoice_copy.pdf'',
                 OsRemove ''Invoice.pdf'', PrintDeleted ''Invoice.pdf'',
                 PrintComplete 1 ''1.5 KB''],
          total_removed = 1, total_space = 1536\<rparr>"
  by (simp add: deduplicate_folder_def demo_folder_def startswith_dot_def sort_desc_def Let_def
        calculate_file_hash_def read_content_def invoice_digest invoice_nonempty demo_md5_def
        format_size_eval)

text \<open>
  A run that \<^verbatim>\<open>is_file()\<close> stops at the second entry: the first file has been hashed, the
  copy that follows is never looked at, and nothing is deleted.
\<close>

lemma denied_run:
  "deduplicate_folder demo_md5 (Directory denied_folder) =
     Inl (PermissionError,
          \<lparr>folder = denied_folder, out = [PrintScanning, CalcHash ''Invoice.pdf''],
           total_removed = 0, total_space = 0\<rparr>)"
  by (simp add: deduplicate_folder_def denied_folder_def startswith_dot_def
        calculate_file_hash_def read_content_def invoice_nonempty)

lemma scan_events_calc:
  "e \<in> set es \<Longrightarrow> scanned e \<Longrightarrow> CalcHash (fname e) \<in> set (concat (map (scan_events md5) es))"
  by (induction es) (auto simp: scan_events_def)

lemma scan_events_calc_origin:
  "CalcHash n \<in> set (concat (map (scan_events md5) es)) \<Longrightarrow> \<exists>e\<in>set es. scanned e \<and> fname e = n"
  by (induction es) (auto simp: scan_events_def printed_of_digest split: option.splits if_splits)

lemma scan_events_error:
  "e \<in> set es \<Longrightarrow> unreadable e \<Longrightarrow>
   PrintErrorReading (fname e) \<in> set (concat (map (scan_events md5) es))"
  by (induction es)
     (auto simp: scan_events_def printed_of_digest unreadable_iff [of _ md5] split: option.splits)

lemma scan_events_error_count:
  "length (filter is_error_reading (concat (map (scan_events md5) es))) =
     length (filter unreadable es)"
  by (induction es)
     (auto simp: scan_events_def printed_of_digest unreadable_iff [of _ md5] split: option.splits)

lemma delete_files_error_lines:
  "filter is_error_reading (out (delete_files fs s)) = filter is_error_reading (out s)"
  by (induction fs arbitrary: s) auto

lemma process_groups_error_lines:
  "filter is_error_reading (out (process_groups fh s)) = filter is_error_reading (out s)"
proof (induction fh arbitrary: s)
  case Nil
  then show ?case by simp
next
  case (Cons p fh)
  obtain h files where p: "p = (h, files)" by (cases p)
  show ?case unfolding p process_groups_Cons
    by (simp add: Cons.IH delete_files_error_lines)
qed

lemma deletions_scanned:
  assumes "(h, files) \<in> set (fst (ending (scan_files md5 entries [] tr)))"
    and "n \<in> fname ` set (deletions files)"
  shows "\<exists>e\<in>set entries. fname e = n \<and> scanned e \<and> digest md5 e = Some h"
proof -
  from assms(2) obtain e where e: "e \<in> set (deletions files)" "fname e = n" by auto
  have "files = map (\<lambda>e. (e, st_mtime e)) (hash_group md5 h (reached entries))"
    by (rule scan_files_group_member [OF assms(1)])
  with e(1) deletions_subset [of files] have m: "e \<in> set (hash_group md5 h (reached entries))"
    by auto
  with hash_group_subset [of md5 h "reached entries"] reached_subset [of entries]
  have "e \<in> set entries" by blast
  with hash_group_digest [OF m] e(2) show ?thesis by blast
qed

lemma run_no_remove:
  assumes "\<forall>(h, files)\<in>set (fst (ending (scan_files md5 entries [] [PrintScanning]))).
             n \<notin> fname ` set (deletions files)"
    and "s1 = process_groups (fst (ending (scan_files md5 entries [] [PrintScanning])))
            \<lparr>folder = entries, out = PrintScanning # concat (map (scan_events md5) entries),
              total_removed = 0, total_space = 0\<rparr>"
  shows "OsRemove n \<notin> set (out s1)"
proof
  assume "OsRemove n \<in> set (out s1)"
  from process_groups_remove [OF this [unfolded assms(2)]]
  show False using assms(1) scan_events_no_remove [of n md5 entries] by auto
qed

text \<open>
  Claim C1. In a folder listing with pairwise different names, take any hash \<open>h\<close> whose
  duplicate group (the scanned files with content hash \<open>h\<close>) has at least two members.
  The file that the script keeps for \<open>h\<close>, the first of the group sorted by modification
  time, newest first, is a member of the group whose modification time is maximal in the
  group; its name is not in the list selected for deletion; \<^verbatim>\<open>os.remove\<close> is never called on
  it and it is still in the folder at the end, however the run ends. When \<^verbatim>\<open>is_file()\<close>
  raises on no entry, the run completes and announces that file as the one kept for \<open>h\<close>.
\<close>

theorem deduplicate_keeps_newest:
  assumes "distinct (map fname entries)" and "2 \<le> length (hash_group md5 h entries)"
  shows "\<exists>keep. keep \<in> set (hash_group md5 h entries) \<and>
           (\<forall>e\<in>set (hash_group md5 h entries). st_mtime e \<le> st_mtime keep) \<and>
           fname keep \<notin> fname ` set (deletions (map (\<lambda>e. (e, st_mtime e)) (hash_group md5 h entries))) \<and>
           OsRemove (fname keep) \<notin> set (out (ending (deduplicate_folder md5 (Directory entries)))) \<and>
           keep \<in> set (folder (ending (deduplicate_folder md5 (Directory entries)))) \<and>
           (list_all is_file_returns entries \<longrightarrow>
              (\<exists>s. deduplicate_folder md5 (Directory entries) = Inr s \<and>
                   PrintDuplicateGroup h (fname keep) \<in> set (out s)))"
proof -
  let ?files = "map (\<lambda>e. (e, st_mtime e)) (hash_group md5 h entries)"
  let ?keep = "fst (sort_desc snd ?files ! 0)"
  let ?fh = "fst (ending (scan_files md5 entries [] [PrintScanning]))"
  let ?r = "deduplicate_folder md5 (Directory entries)"
  from assms(2) have ne: "hash_group md5 h entries \<noteq> []" by auto
  then have fne: "?files \<noteq> []" by simp
  have len: "length ?files > 1" using assms(2) by simp
  from sort_desc_first_in [OF fne, of snd] have kin: "sort_desc snd ?files ! 0 \<in> set ?files" .
  then have kg: "?keep \<in> set (hash_group md5 h entries)" by auto
  from kin have ksnd: "snd (sort_desc snd ?files ! 0) = st_mtime ?keep" by auto
  have kmax: "\<forall>e\<in>set (hash_group md5 h entries). st_mtime e \<le> st_mtime ?keep"
  proof
    fix e assume "e \<in> set (hash_group md5 h entries)"
    then have "(e, st_mtime e) \<in> set ?files" by simp
    from sort_desc_first_max [OF this, of snd] show "st_mtime e \<le> st_mtime ?keep"
      unfolding ksnd by simp
  qed
  have own: "fname ?keep \<notin> fname ` set (deletions ?files)"
    by (rule keeper_not_in_own_deletions [OF assms(1)])
  have kin_entries: "?keep \<in> set entries" using kg hash_group_subset by blast
  have run: "OsRemove (fname ?keep) \<notin> set (out (ending ?r)) \<and> ?keep \<in> set (folder (ending ?r)) \<and>
     (list_all is_file_returns entries \<longrightarrow>
        (\<exists>s. ?r = Inr s \<and> PrintDuplicateGroup h (fname ?keep) \<in> set (out s)))"
  proof (cases "list_all is_file_returns entries")
    case True
    obtain s1 where r: "?r =
         Inr (s1\<lparr>out := out s1 @ [PrintComplete (total_removed s1) (format_size (total_space s1))]\<rparr>)"
      and s1: "s1 = process_groups ?fh
              \<lparr>folder = entries, out = PrintScanning # concat (map (scan_events md5) entries),
                total_removed = 0, total_space = 0\<rparr>"
      by (rule deduplicate_folder_run [OF True])
    let ?s = "s1\<lparr>out := out s1 @ [PrintComplete (total_removed s1) (format_size (total_space s1))]\<rparr>"
    have "(h, ?files) \<in> set ?fh"
      using scan_files_has_group [of md5 h entries "[PrintScanning]"] ne reached_all [OF True]
      by simp
    from process_groups_announces [OF this len]
    have ann: "PrintDuplicateGroup h (fname ?keep) \<in> set (out ?s)" unfolding s1 by simp
    have none: "\<forall>(h', files')\<in>set ?fh. fname ?keep \<notin> fname ` set (deletions files')"
      using keeper_not_in_any_deletions [OF assms(1) True ne] by blast
    have "OsRemove (fname ?keep) \<notin> set (out s1)" by (rule run_no_remove [OF none s1])
    then have norm: "OsRemove (fname ?keep) \<notin> set (out ?s)" by simp
    have "?keep \<in> set (folder s1)" unfolding s1
      by (intro process_groups_keeps none) (simp add: kin_entries)
    then have stay: "?keep \<in> set (folder ?s)" by simp
    from r ann norm stay show ?thesis by simp
  next
    case False
    from deduplicate_folder_stopped [OF False, of md5] obtain err where
      r: "?r = Inl (err, \<lparr>folder = entries,
                  out = PrintScanning # concat (map (scan_events md5) (reached entries)),
                  total_removed = 0, total_space = 0\<rparr>)" by blast
    show ?thesis using False kin_entries scan_events_no_remove [of "fname ?keep" md5 "reached entries"]
      unfolding r by simp
  qed
  show ?thesis
  proof (intro exI conjI)
    show "?keep \<in> set (hash_group md5 h entries)" by (fact kg)
    show "\<forall>e\<in>set (hash_group md5 h entries). st_mtime e \<le> st_mtime ?keep" by (fact kmax)
    show "fname ?keep \<notin> fname ` set (deletions ?files)" by (fact own)
    show "OsRemove (fname ?keep) \<notin> set (out (ending ?r))" using run by blast
    show "?keep \<in> set (folder (ending ?r))" using run by blast
    show "list_all is_file_returns entries \<longrightarrow>
        (\<exists>s. ?r = Inr s \<and> PrintDuplicateGroup h (fname ?keep) \<in> set (out s))" using run by blast
  qed
qed

lemma demo_folder_returns: "list_all is_file_returns demo_folder"
  by (simp add: demo_folder_def is_file_returns_def)

lemma demo_group:
  "hash_group demo_md5 ''d41d'' demo_folder =
     [\<lparr>fname = ''Invoice.pdf'', is_file = Inr True,
        open_rb = Inr [ReadReturns invoice_bytes, ReadReturns []],
        st_mtime = 10, st_size = 1536, removable = True\<rparr>,
      \<lparr>fname = ''Invoice_copy.pdf'', is_file = Inr True,
        open_rb = Inr [ReadReturns invoice_bytes, ReadReturns []],
        st_mtime = 20, st_size = 1536, removable = True\<rparr>]"
  by (simp add: demo_folder_def hash_group_def scanned_def startswith_dot_def digest_def
        calculate_file_hash_def read_content_def invoice_digest invoice_nonempty demo_md5_def)

theorem deduplicate_keeps_newest_witness:
  "distinct (map fname demo_folder) \<and> 2 \<le> length (hash_group demo_md5 ''d41d'' demo_folder) \<and>
   list_all is_file_returns demo_folder \<and>
   (\<exists>s keep. deduplicate_folder demo_md5 (Directory demo_folder) = Inr s \<and>
           keep \<in> set (hash_group demo_md5 ''d41d'' demo_folder) \<and>
           PrintDuplicateGroup ''d41d'' (fname keep) \<in> set (out s) \<and>
           fname keep \<notin> fname ` set (deletions (map (\<lambda>e. (e, st_mtime e))
                                                (hash_group demo_md5 ''d41d'' demo_folder))) \<and>
           OsRemove (fname keep) \<notin> set (out s) \<and> keep \<in> set (folder s))"
proof -
  let ?r = "deduplicate_folder demo_md5 (Directory demo_folder)"
  have h1: "distinct (map fname demo_folder)" by (simp add: demo_folder_def)
  have h2: "2 \<le> length (hash_group demo_md5 ''d41d'' demo_folder)" by (simp add: demo_group)
  note h3 = demo_folder_returns
  from deduplicate_keeps_newest [OF h1 h2] obtain keep where k:
    "keep \<in> set (hash_group demo_md5 ''d41d'' demo_folder)"
    "fname keep \<notin> fname ` set (deletions (map (\<lambda>e. (e, st_mtime e))
                                          (hash_group demo_md5 ''d41d'' demo_folder)))"
    "OsRemove (fname keep) \<notin> set (out (ending ?r))"
    "keep \<in> set (folder (ending ?r))"
    "list_all is_file_returns demo_folder \<longrightarrow>
       (\<exists>s. ?r = Inr s \<and> PrintDuplicateGroup ''d41d'' (fname keep) \<in> set (out s))"
    by blast
  from k(5) h3 obtain s where s: "?r = Inr s"
    "PrintDuplicateGroup ''d41d'' (fname keep) \<in> set (out s)" by blast
  from k(3,4) s(1) have "OsRemove (fname keep) \<notin> set (out s)" "keep \<in> set (folder s)"
    by simp_all
  with k(1,2) s have "\<exists>s keep. ?r = Inr s \<and>
           keep \<in> set (hash_group demo_md5 ''d41d'' demo_folder) \<and>
           PrintDuplicateGroup ''d41d'' (fname keep) \<in> set (out s) \<and>
           fname keep \<notin> fname ` set (deletions (map (\<lambda>e. (e, st_mtime e))
                                                (hash_group demo_md5 ''d41d'' demo_folder))) \<and>
           OsRemove (fname keep) \<notin> set (out s) \<and> keep \<in> set (folder s)"
    by blast
  with h1 h2 h3 show ?thesis by (intro conjI)
qed

subsection \<open>Hidden files\<close>

lemma collect_all_files_names:
  "info_name ` set (ending (collect_all_files es acc)) =
     info_name ` set acc \<union> fname ` {e \<in> set (reached es). scanned e}"
proof (induction es arbitrary: acc)
  case Nil
  then show ?case by (simp add: reached_def)
next
  case (Cons e es)
  show ?case
  proof (cases "is_file e")
    case (Inl err)
    then show ?thesis by (simp add: reached_Cons is_file_returns_def)
  next
    case (Inr regular)
    then show ?thesis
      by (auto simp: Cons.IH reached_Cons is_file_returns_def scanned_def)
  qed
qed

text \<open>
  Claim C10. A file of the folder whose name starts with a dot is left out of the
  deduplication, however the run ends: \<^verbatim>\<open>calculate_file_hash\<close> is never called on it, it is
  in no group of the dictionary of hashes, \<^verbatim>\<open>os.remove\<close> is never called on it, and it is
  still in the folder at the end; the run completes when \<^verbatim>\<open>is_file()\<close> raises on no entry.
  It is left out of the listing \<^verbatim>\<open>all_files\<close> of the duplicate scanner as well, from which
  that script takes every file it groups and hashes.
\<close>

theorem hidden_files_excluded:
  assumes "e \<in> set entries" and "startswith_dot (fname e)"
  shows "CalcHash (fname e) \<notin> set (out (ending (deduplicate_folder md5 (Directory entries)))) \<and>
         (\<forall>(h, files)\<in>set (fst (ending (scan_files md5 entries [] [PrintScanning]))).
            e \<notin> fst ` set files) \<and>
         OsRemove (fname e) \<notin> set (out (ending (deduplicate_folder md5 (Directory entries)))) \<and>
         e \<in> set (folder (ending (deduplicate_folder md5 (Directory entries)))) \<and>
         (list_all is_file_returns entries \<longrightarrow>
            (\<exists>s. deduplicate_folder md5 (Directory entries) = Inr s)) \<and>
         fname e \<notin> info_name ` set (ending (collect_all_files entries []))"
proof -
  let ?fh = "fst (ending (scan_files md5 entries [] [PrintScanning]))"
  let ?r = "deduplicate_folder md5 (Directory entries)"
  have hid: "\<And>e'. scanned e' \<Longrightarrow> fname e' \<noteq> fname e"
    using assms(2) by (auto simp: scanned_def)
  have listing: "fname e \<notin> info_name ` set (ending (collect_all_files entries []))"
    using assms(2) by (auto simp: collect_all_files_names scanned_def)
  have nocalc: "\<And>es. CalcHash (fname e) \<notin> set (concat (map (scan_events md5) es))"
  proof
    fix es assume "CalcHash (fname e) \<in> set (concat (map (scan_events md5) es))"
    from scan_events_calc_origin [OF this] hid show False by blast
  qed
  have grp': "\<And>h files. (h, files) \<in> set ?fh \<Longrightarrow> e \<notin> fst ` set files"
  proof
    fix h files assume m: "(h, files) \<in> set ?fh" and "e \<in> fst ` set files"
    moreover have "files = map (\<lambda>e. (e, st_mtime e)) (hash_group md5 h (reached entries))"
      by (rule scan_files_group_member [OF m])
    ultimately have "e \<in> set (hash_group md5 h (reached entries))" by auto
    from hash_group_digest [OF this] hid show False by blast
  qed
  then have grp: "\<forall>(h, files)\<in>set ?fh. e \<notin> fst ` set files" by blast
  have none': "\<And>h files. (h, files) \<in> set ?fh \<Longrightarrow> fname e \<notin> fname ` set (deletions files)"
  proof
    fix h files assume m: "(h, files) \<in> set ?fh" and "fname e \<in> fname ` set (deletions files)"
    from deletions_scanned [OF m this(2)] hid show False by blast
  qed
  then have none: "\<forall>(h, files)\<in>set ?fh. fname e \<notin> fname ` set (deletions files)" by blast
  have run: "CalcHash (fname e) \<notin> set (out (ending ?r)) \<and>
     OsRemove (fname e) \<notin> set (out (ending ?r)) \<and> e \<in> set (folder (ending ?r)) \<and>
     (list_all is_file_returns entries \<longrightarrow> (\<exists>s. ?r = Inr s))"
  proof (cases "list_all is_file_returns entries")
    case True
    obtain s1 where r: "?r =
         Inr (s1\<lparr>out := out s1 @ [PrintComplete (total_removed s1) (format_size (total_space s1))]\<rparr>)"
      and s1: "s1 = process_groups ?fh
              \<lparr>folder = entries, out = PrintScanning # concat (map (scan_events md5) entries),
                total_removed = 0, total_space = 0\<rparr>"
      by (rule deduplicate_folder_run [OF True])
    let ?s = "s1\<lparr>out := out s1 @ [PrintComplete (total_removed s1) (format_size (total_space s1))]\<rparr>"
    have calc: "CalcHash (fname e) \<notin> set (out ?s)"
    proof
      assume "CalcHash (fname e) \<in> set (out ?s)"
      then have "CalcHash (fname e) \<in> set (out s1)" by simp
      from process_groups_calc [OF this [unfolded s1]]
      have "CalcHash (fname e) \<in> set (concat (map (scan_events md5) entries))" by simp
      with nocalc show False by blast
    qed
    have "OsRemove (fname e) \<notin> set (out s1)" by (rule run_no_remove [OF none s1])
    then have norm: "OsRemove (fname e) \<notin> set (out ?s)" by simp
    have "e \<in> set (folder s1)" unfolding s1
      by (intro process_groups_keeps none) (simp add: assms(1))
    then have stay: "e \<in> set (folder ?s)" by simp
    from r calc norm stay show ?thesis by simp
  next
    case False
    from deduplicate_folder_stopped [OF False, of md5] obtain err where
      r: "?r = Inl (err, \<lparr>folder = entries,
                  out = PrintScanning # concat (map (scan_events md5) (reached entries)),
                  total_removed = 0, total_space = 0\<rparr>)" by blast
    show ?thesis
      using False assms(1) nocalc [of "reached entries"]
        scan_events_no_remove [of "fname e" md5 "reached entries"]
      unfolding r by simp
  qed
  from run grp listing show ?thesis by blast
qed

theorem hidden_files_excluded_witness:
  "\<lparr>fname = ''.DS_Store'', is_file = Inr True,
     open_rb = Inr [ReadReturns invoice_bytes, ReadReturns []],
     st_mtime = 30, st_size = 1536, removable = True\<rparr> \<in> set demo_folder \<and>
   startswith_dot ''.DS_Store'' \<and> list_all is_file_returns demo_folder \<and>
   (\<exists>s. deduplicate_folder demo_md5 (Directory demo_folder) = Inr s \<and>
           CalcHash ''.DS_Store'' \<notin> set (out s) \<and>
           (\<forall>(h, files)\<in>set (fst (ending (scan_files demo_md5 demo_folder [] [PrintScanning]))).
              \<lparr>fname = ''.DS_Store'', is_file = Inr True,
                open_rb = Inr [ReadReturns invoice_bytes, ReadReturns []],
                st_mtime = 30, st_size = 1536, removable = True\<rparr> \<notin> fst ` set files) \<and>
           OsRemove ''.DS_Store'' \<notin> set (out s) \<and>
           \<lparr>fname = ''.DS_Store'', is_file = Inr True,
             open_rb = Inr [ReadReturns invoice_bytes, ReadReturns []],
             st_mtime = 30, st_size = 1536, removable = True\<rparr> \<in> set (folder s)) \<and>
   ''.DS_Store'' \<notin> info_name ` set (ending (collect_all_files demo_folder []))"
proof -
  let ?e = "\<lparr>fname = ''.DS_Store'', is_file = Inr True,
     open_rb = Inr [ReadReturns invoice_bytes, ReadReturns []],
     st_mtime = 30, st_size = 1536, removable = True\<rparr>"
  let ?r = "deduplicate_folder demo_md5 (Directory demo_folder)"
  have h1: "?e \<in> set demo_folder" by (simp add: demo_folder_def)
  have h2: "startswith_dot (fname ?e)" by (simp add: startswith_dot_def)
  note h3 = demo_folder_returns
  from hidden_files_excluded [OF h1 h2, of demo_md5] have t:
    "CalcHash (fname ?e) \<notin> set (out (ending ?r))"
    "\<forall>(h, files)\<in>set (fst (ending (scan_files demo_md5 demo_folder [] [PrintScanning]))).
            ?e \<notin> fst ` set files"
    "OsRemove (fname ?e) \<notin> set (out (ending ?r))"
    "?e \<in> set (folder (ending ?r))"
    "list_all is_file_returns demo_folder \<longrightarrow> (\<exists>s. ?r = Inr s)"
    "fname ?e \<notin> info_name ` set (ending (collect_all_files demo_folder []))"
    by blast+
  from t(5) h3 obtain s where s: "?r = Inr s" by blast
  from t(1,3,4) have "CalcHash ''.DS_Store'' \<notin> set (out s)" "OsRemove ''.DS_Store'' \<notin> set (out s)"
    "?e \<in> set (folder s)" unfolding s by simp_all
  with s t(2) have "\<exists>s. ?r = Inr s \<and>
           CalcHash ''.DS_Store'' \<notin> set (out s) \<and>
           (\<forall>(h, files)\<in>set (fst (ending (scan_files demo_md5 demo_folder [] [PrintScanning]))).
              ?e \<notin> fst ` set files) \<and>
           OsRemove ''.DS_Store'' \<notin> set (out s) \<and> ?e \<in> set (folder s)"
    by blast
  moreover from t(6) have "''.DS_Store'' \<notin> info_name ` set (ending (collect_all_files demo_folder []))"
    by simp
  moreover from h2 have "startswith_dot ''.DS_Store''" by simp
  ultimately show ?thesis using h1 h3 by (intro conjI)
qed

subsection \<open>Files that cannot be read\<close>

text \<open>
  Claim C7 (counterexample). The final summary does not report the number of read errors:
  the run on a folder holding one file that cannot be opened ends with the same summary
  line as the run on an empty folder, \<open>PrintComplete 0 ''0 B''\<close>, the line of source line 89,
  which has the number of removed files and the freed space as its only fields. And the
  rest of the batch is not always hashed: where \<^verbatim>\<open>is_file()\<close> raises on the entry after the
  file that cannot be opened, the run ends there, with no summary, the file that follows
  never hashed.
\<close>

theorem summary_without_read_error_count:
  "unreadable \<lparr>fname = ''Locked.pdf'', is_file = Inr True, open_rb = Inl PermissionError,
                st_mtime = 40, st_size = 99, removable = True\<rparr> \<and>
   deduplicate_folder demo_md5
     (Directory [\<lparr>fname = ''Locked.pdf'', is_file = Inr True, open_rb = Inl PermissionError,
                   st_mtime = 40, st_size = 99, removable = True\<rparr>]) =
     Inr \<lparr>folder = [\<lparr>fname = ''Locked.pdf'', is_file = Inr True, open_rb = Inl PermissionError,
                       st_mtime = 40, st_size = 99, removable = True\<rparr>],
          out = [PrintScanning, CalcHash ''Locked.pdf'', PrintErrorReading ''Locked.pdf'',
                 PrintComplete 0 ''0 B''],
          total_removed = 0, total_space = 0\<rparr> \<and>
   deduplicate_folder demo_md5 (Directory []) =
     Inr \<lparr>folder = [], out = [PrintScanning, PrintComplete 0 ''0 B''],
          total_removed = 0, total_space = 0\<rparr> \<and>
   deduplicate_folder demo_md5
     (Directory [\<lparr>fname = ''Locked.pdf'', is_file = Inr True, open_rb = Inl PermissionError,
                   st_mtime = 40, st_size = 99, removable = True\<rparr>,
                 \<lparr>fname = ''Elsewhere.pdf'', is_file = Inl PermissionError,
                   open_rb = Inl PermissionError, st_mtime = 0, st_size = 0, removable = False\<rparr>,
                 \<lparr>fname = ''Notes.txt'', is_file = Inr True,
                   open_rb = Inr [ReadReturns ''9e107d9'', ReadReturns []],
                   st_mtime = 5, st_size = 7, removable = True\<rparr>]) =
     Inl (PermissionError,
          \<lparr>folder = [\<lparr>fname = ''Locked.pdf'', is_file = Inr True, open_rb = Inl PermissionError,
                       st_mtime = 40, st_size = 99, removable = True\<rparr>,
                     \<lparr>fname = ''Elsewhere.pdf'', is_file = Inl PermissionError,
                       open_rb = Inl PermissionError, st_mtime = 0, st_size = 0,
                       removable = False\<rparr>,
                     \<lparr>fname = ''Notes.txt'', is_file = Inr True,
                       open_rb = Inr [ReadReturns ''9e107d9'', ReadReturns []],
                       st_mtime = 5, st_size = 7, removable = True\<rparr>],
           out = [PrintScanning, CalcHash ''Locked.pdf'', PrintErrorReading ''Locked.pdf''],
           total_removed = 0, total_space = 0\<rparr>)"
  by (simp add: deduplicate_folder_def unreadable_def scanned_def startswith_dot_def Let_def
        calculate_file_hash_def read_content_def format_size_def)

text \<open>
  Claim C7 (amended). In a folder listing with pairwise different names, let \<open>e\<close> be a
  scanned file whose content cannot be read: \<^verbatim>\<open>open\<close> raises, or one of the calls of
  \<^verbatim>\<open>f.read\<close> does. Then \<^verbatim>\<open>calculate_file_hash\<close> prints the error and returns \<^verbatim>\<open>None\<close> instead
  of raising. However the run ends, \<open>e\<close> is in no group, \<^verbatim>\<open>os.remove\<close> is never called on it
  and it stays in the folder; the scan goes on after \<open>e\<close>: every scanned file among the
  entries reached is hashed, and one error line is printed for each unreadable file among
  them, the one for \<open>e\<close> if \<open>e\<close> is reached. The entries reached are all the entries, and the
  run completes, when \<^verbatim>\<open>is_file()\<close> raises on no entry (that exception is not caught, and
  ends the run); the last line is then the summary, made of the number of removed files
  and the formatted freed space, with no count of the read errors.
\<close>

theorem unreadable_file_skipped:
  assumes "distinct (map fname entries)" and "e \<in> set entries" and "unreadable e"
  shows "calculate_file_hash md5 e = (None, [PrintErrorReading (fname e)]) \<and>
     (\<forall>(h, files)\<in>set (fst (ending (scan_files md5 entries [] [PrintScanning]))).
        e \<notin> fst ` set files) \<and>
     OsRemove (fname e) \<notin> set (out (ending (deduplicate_folder md5 (Directory entries)))) \<and>
     e \<in> set (folder (ending (deduplicate_folder md5 (Directory entries)))) \<and>
     (e \<in> set (reached entries) \<longrightarrow>
        PrintErrorReading (fname e)
          \<in> set (out (ending (deduplicate_folder md5 (Directory entries))))) \<and>
     (\<forall>e'\<in>set (reached entries). scanned e' \<longrightarrow>
        CalcHash (fname e') \<in> set (out (ending (deduplicate_folder md5 (Directory entries))))) \<and>
     length (filter is_error_reading (out (ending (deduplicate_folder md5 (Directory entries))))) =
       length (filter unreadable (reached entries)) \<and>
     (list_all is_file_returns entries \<longrightarrow>
        reached entries = entries \<and>
        (\<exists>s. deduplicate_folder md5 (Directory entries) = Inr s \<and>
             last (out s) = PrintComplete (total_removed s) (format_size (total_space s))))"
proof -
  let ?fh = "fst (ending (scan_files md5 entries [] [PrintScanning]))"
  let ?r = "deduplicate_folder md5 (Directory entries)"
  from assms(3) have sc: "scanned e" by (simp add: unreadable_def)
  from assms(3) have dn: "digest md5 e = None" by (simp add: unreadable_iff [of e md5])
  from dn obtain err where rd: "read_content e = Inl err" by (auto simp: digest_None_iff)
  have ret: "calculate_file_hash md5 e = (None, [PrintErrorReading (fname e)])"
    by (rule calculate_file_hash_failure [OF rd])
  have grp': "\<And>h files. (h, files) \<in> set ?fh \<Longrightarrow> e \<notin> fst ` set files"
  proof
    fix h files assume m: "(h, files) \<in> set ?fh" and "e \<in> fst ` set files"
    moreover have "files = map (\<lambda>e. (e, st_mtime e)) (hash_group md5 h (reached entries))"
      by (rule scan_files_group_member [OF m])
    ultimately have "e \<in> set (hash_group md5 h (reached entries))" by auto
    from hash_group_digest [OF this] dn show False by simp
  qed
  then have grp: "\<forall>(h, files)\<in>set ?fh. e \<notin> fst ` set files" by blast
  have none': "\<And>h files. (h, files) \<in> set ?fh \<Longrightarrow> fname e \<notin> fname ` set (deletions files)"
  proof
    fix h files assume m: "(h, files) \<in> set ?fh" and "fname e \<in> fname ` set (deletions files)"
    from deletions_scanned [OF m this(2)] obtain e' where
      e': "e' \<in> set entries" "fname e' = fname e" "digest md5 e' = Some h" by blast
    from same_name_same_entry [OF assms(1) e'(1) assms(2) e'(2)] e'(3) dn show False by simp
  qed
  then have none: "\<forall>(h, files)\<in>set ?fh. fname e \<notin> fname ` set (deletions files)" by blast
  have run: "OsRemove (fname e) \<notin> set (out (ending ?r)) \<and> e \<in> set (folder (ending ?r)) \<and>
     (e \<in> set (reached entries) \<longrightarrow> PrintErrorReading (fname e) \<in> set (out (ending ?r))) \<and>
     (\<forall>e'\<in>set (reached entries). scanned e' \<longrightarrow> CalcHash (fname e') \<in> set (out (ending ?r))) \<and>
     length (filter is_error_reading (out (ending ?r))) =
       length (filter unreadable (reached entries)) \<and>
     (list_all is_file_returns entries \<longrightarrow>
        reached entries = entries \<and>
        (\<exists>s. ?r = Inr s \<and>
             last (out s) = PrintComplete (total_removed s) (format_size (total_space s))))"
  proof (cases "list_all is_file_returns entries")
    case True
    note re = reached_all [OF True]
    obtain s1 where r: "?r =
         Inr (s1\<lparr>out := out s1 @ [PrintComplete (total_removed s1) (format_size (total_space s1))]\<rparr>)"
      and s1: "s1 = process_groups ?fh
              \<lparr>folder = entries, out = PrintScanning # concat (map (scan_events md5) entries),
                total_removed = 0, total_space = 0\<rparr>"
      by (rule deduplicate_folder_run [OF True])
    let ?init = "\<lparr>folder = entries, out = PrintScanning # concat (map (scan_events md5) entries),
                total_removed = 0, total_space = 0\<rparr>"
    let ?s = "s1\<lparr>out := out s1 @ [PrintComplete (total_removed s1) (format_size (total_space s1))]\<rparr>"
    have mono: "set (out ?init) \<subseteq> set (out ?s)"
      using process_groups_out_mono [of ?init ?fh] unfolding s1 by auto
    have "PrintErrorReading (fname e) \<in> set (out ?init)"
      using scan_events_error [OF assms(2,3), of md5] by simp
    with mono have err: "PrintErrorReading (fname e) \<in> set (out ?s)" by blast
    have "OsRemove (fname e) \<notin> set (out s1)" by (rule run_no_remove [OF none s1])
    then have norm: "OsRemove (fname e) \<notin> set (out ?s)" by simp
    have "e \<in> set (folder s1)" unfolding s1
      by (intro process_groups_keeps none) (simp add: assms(2))
    then have stay: "e \<in> set (folder ?s)" by simp
    have all: "\<forall>e'\<in>set entries. scanned e' \<longrightarrow> CalcHash (fname e') \<in> set (out ?s)"
    proof (intro ballI impI)
      fix e' assume "e' \<in> set entries" and "scanned e'"
      from scan_events_calc [OF this, of md5] have "CalcHash (fname e') \<in> set (out ?init)" by simp
      with mono show "CalcHash (fname e') \<in> set (out ?s)" by blast
    qed
    have "filter is_error_reading (out s1) = filter is_error_reading (out ?init)"
      unfolding s1 by (rule process_groups_error_lines)
    then have cnt: "length (filter is_error_reading (out ?s)) = length (filter unreadable entries)"
      by (simp add: scan_events_error_count)
    have lst: "last (out ?s) = PrintComplete (total_removed ?s) (format_size (total_space ?s))"
      by simp
    have fin: "\<exists>s. ?r = Inr s \<and>
             last (out s) = PrintComplete (total_removed s) (format_size (total_space s))"
      using r lst by blast
    have e1: "ending ?r = ?s" unfolding r by simp
    show ?thesis unfolding e1 re using norm stay err all cnt fin by blast
  next
    case False
    from deduplicate_folder_stopped [OF False, of md5] obtain err where
      r: "?r = Inl (err, \<lparr>folder = entries,
                  out = PrintScanning # concat (map (scan_events md5) (reached entries)),
                  total_removed = 0, total_space = 0\<rparr>)" by blast
    let ?st = "\<lparr>folder = entries,
                out = PrintScanning # concat (map (scan_events md5) (reached entries)),
                total_removed = 0, total_space = 0\<rparr>"
    have e1: "ending ?r = ?st" unfolding r by simp
    have norm: "OsRemove (fname e) \<notin> set (out ?st)"
      using scan_events_no_remove [of "fname e" md5 "reached entries"] by simp
    have stay: "e \<in> set (folder ?st)" using assms(2) by simp
    have err: "e \<in> set (reached entries) \<longrightarrow> PrintErrorReading (fname e) \<in> set (out ?st)"
    proof
      assume "e \<in> set (reached entries)"
      from scan_events_error [OF this assms(3), of md5]
      show "PrintErrorReading (fname e) \<in> set (out ?st)" by simp
    qed
    have all: "\<forall>e'\<in>set (reached entries). scanned e' \<longrightarrow> CalcHash (fname e') \<in> set (out ?st)"
    proof (intro ballI impI)
      fix e' assume "e' \<in> set (reached entries)" and "scanned e'"
      from scan_events_calc [OF this, of md5] show "CalcHash (fname e') \<in> set (out ?st)" by simp
    qed
    have cnt: "length (filter is_error_reading (out ?st)) = length (filter unreadable (reached entries))"
      by (simp add: scan_events_error_count)
    show ?thesis unfolding e1 using norm stay err all cnt False by blast
  qed
  from ret grp run show ?thesis by blast
qed

theorem unreadable_file_skipped_witness:
  "distinct (map fname demo_folder) \<and>
   \<lparr>fname = ''Locked.pdf'', is_file = Inr True, open_rb = Inl PermissionError,
      st_mtime = 40, st_size = 99, removable = True\<rparr> \<in> set demo_folder \<and>
   unreadable \<lparr>fname = ''Locked.pdf'', is_file = Inr True, open_rb = Inl PermissionError,
      st_mtime = 40, st_size = 99, removable = True\<rparr> \<and>
   list_all is_file_returns demo_folder \<and>
   calculate_file_hash demo_md5
     \<lparr>fname = ''Locked.pdf'', is_file = Inr True, open_rb = Inl PermissionError,
      st_mtime = 40, st_size = 99, removable = True\<rparr> = (None, [PrintErrorReading ''Locked.pdf'']) \<and>
   (\<exists>s. deduplicate_folder demo_md5 (Directory demo_folder) = Inr s \<and>
           PrintErrorReading ''Locked.pdf'' \<in> set (out s) \<and>
           OsRemove ''Locked.pdf'' \<notin> set (out s) \<and>
           \<lparr>fname = ''Locked.pdf'', is_file = Inr True, open_rb = Inl PermissionError,
             st_mtime = 40, st_size = 99, removable = True\<rparr> \<in> set (folder s) \<and>
           CalcHash ''Notes.txt'' \<in> set (out s) \<and>
           length (filter is_error_reading (out s)) = length (filter unreadable demo_folder) \<and>
           last (out s) = PrintComplete (total_removed s) (format_size (total_space s)))"
proof -
  let ?e = "\<lparr>fname = ''Locked.pdf'', is_file = Inr True, open_rb = Inl PermissionError,
      st_mtime = 40, st_size = 99, removable = True\<rparr>"
  let ?n = "\<lparr>fname = ''Notes.txt'', is_file = Inr True,
        open_rb = Inr [ReadReturns ''9e107d9'', ReadReturns []],
        st_mtime = 5, st_size = 7, removable = True\<rparr>"
  let ?r = "deduplicate_folder demo_md5 (Directory demo_folder)"
  have h1: "distinct (map fname demo_folder)" by (simp add: demo_folder_def)
  have h2: "?e \<in> set demo_folder" by (simp add: demo_folder_def)
  have h3: "unreadable ?e"
    by (simp add: unreadable_def scanned_def startswith_dot_def read_content_def)
  note h4 = demo_folder_returns
  have n1: "?n \<in> set demo_folder" by (simp add: demo_folder_def)
  have n2: "scanned ?n" by (simp add: scanned_def startswith_dot_def)
  from unreadable_file_skipped [OF h1 h2 h3, of demo_md5] have t:
    "calculate_file_hash demo_md5 ?e = (None, [PrintErrorReading (fname ?e)])"
    "OsRemove (fname ?e) \<notin> set (out (ending ?r))"
    "?e \<in> set (folder (ending ?r))"
    "?e \<in> set (reached demo_folder) \<longrightarrow> PrintErrorReading (fname ?e) \<in> set (out (ending ?r))"
    "\<forall>e'\<in>set (reached demo_folder). scanned e' \<longrightarrow> CalcHash (fname e') \<in> set (out (ending ?r))"
    "length (filter is_error_reading (out (ending ?r))) =
       length (filter unreadable (reached demo_folder))"
    "list_all is_file_returns demo_folder \<longrightarrow>
        reached demo_folder = demo_folder \<and>
        (\<exists>s. ?r = Inr s \<and>
             last (out s) = PrintComplete (total_removed s) (format_size (total_space s)))"
    by blast+
  from t(7) h4 obtain s where re: "reached demo_folder = demo_folder" and s: "?r = Inr s"
    "last (out s) = PrintComplete (total_removed s) (format_size (total_space s))" by blast
  from t(4) h2 re have a: "PrintErrorReading ''Locked.pdf'' \<in> set (out s)" unfolding s by simp
  from t(2) have b: "OsRemove ''Locked.pdf'' \<notin> set (out s)" unfolding s by simp
  from t(3) have c: "?e \<in> set (folder s)" unfolding s by simp
  from t(5) re have "\<forall>e'\<in>set demo_folder. scanned e' \<longrightarrow>
      CalcHash (fname e') \<in> set (out (ending ?r))" by simp
  from bspec [OF this n1] n2 have "CalcHash (fname ?n) \<in> set (out (ending ?r))" by blast
  then have d: "CalcHash ''Notes.txt'' \<in> set (out s)" unfolding s by simp
  from t(6) re have f: "length (filter is_error_reading (out s)) = length (filter unreadable demo_folder)"
    unfolding s by simp
  from t(1) have g: "calculate_file_hash demo_md5 ?e = (None, [PrintErrorReading ''Locked.pdf''])"
    by simp
  from s a b c d f have "\<exists>s. ?r = Inr s \<and>
           PrintErrorReading ''Locked.pdf'' \<in> set (out s) \<and>
           OsRemove ''Locked.pdf'' \<notin> set (out s) \<and> ?e \<in> set (folder s) \<and>
           CalcHash ''Notes.txt'' \<in> set (out s) \<and>
           length (filter is_error_reading (out s)) = length (filter unreadable demo_folder) \<and>
           last (out s) = PrintComplete (total_removed s) (format_size (total_space s))"
    by blast
  with h1 h2 h3 h4 g show ?thesis by (intro conjI)
qed


section \<open>Fuzzy grouping: properties\<close>

lemma join_first_none:
  "[] \<notin> set gs \<Longrightarrow> \<forall>g\<in>set gs. r x (hd g) < t \<Longrightarrow> join_first r t x gs = Inr (False, gs)"
  by (induction gs) (auto split: list.splits)

lemma join_first_some:
  "[] \<notin> set gs \<Longrightarrow> i < length gs \<Longrightarrow> t \<le> r x (hd (gs ! i)) \<Longrightarrow>
   \<forall>j<i. r x (hd (gs ! j)) < t \<Longrightarrow>
   join_first r t x gs = Inr (True, gs[i := gs ! i @ [x]])"
proof (induction gs arbitrary: i)
  case Nil
  then show ?case by simp
next
  case (Cons g gs)
  from Cons.prems(1) obtain g0 gr where g: "g = g0 # gr" by (cases g) auto
  show ?case
  proof (cases i)
    case 0
    with Cons.prems g show ?thesis by simp
  next
    case (Suc k)
    from Cons.prems(4) Suc have "r x (hd ((g # gs) ! 0)) < t" by blast
    then have lt: "\<not> t \<le> r x g0" using g by simp
    have "join_first r t x gs = Inr (True, gs[k := gs ! k @ [x]])"
    proof (rule Cons.IH)
      show "[] \<notin> set gs" using Cons.prems(1) by simp
      show "k < length gs" using Cons.prems(2) Suc by simp
      show "t \<le> r x (hd (gs ! k))" using Cons.prems(3) Suc by simp
      show "\<forall>j<k. r x (hd (gs ! j)) < t"
      proof (intro allI impI)
        fix j assume "j < k"
        then have "Suc j < i" using Suc by simp
        with Cons.prems(4) have "r x (hd ((g # gs) ! Suc j)) < t" by blast
        then show "r x (hd (gs ! j)) < t" by simp
      qed
    qed
    with lt g Suc show ?thesis by simp
  qed
qed

lemma join_first_nonempty:
  "[] \<notin> set gs \<Longrightarrow> join_first r t x gs = Inr (b, gs') \<Longrightarrow> [] \<notin> set gs'"
  by (induction gs arbitrary: b gs') (auto split: list.splits if_splits sum.splits)

lemma fuzzy_group_loop_append:
  "fuzzy_group_loop r t (xs @ ys) gs =
     (case fuzzy_group_loop r t xs gs of Inl e \<Rightarrow> Inl e | Inr gs' \<Rightarrow> fuzzy_group_loop r t ys gs')"
  by (induction xs arbitrary: gs) (auto split: sum.splits)

lemma first_match_cases:
  fixes P :: "nat \<Rightarrow> bool"
  assumes "\<exists>i<n. P i"
  shows "\<exists>i<n. P i \<and> (\<forall>j<i. \<not> P j)"
proof -
  from assms obtain i where "i < n" "P i" by blast
  define m where "m = (LEAST k. P k)"
  have "P m" unfolding m_def using \<open>P i\<close> by (rule LeastI)
  moreover have "m \<le> i" unfolding m_def using \<open>P i\<close> by (rule Least_le)
  moreover have "\<forall>j<m. \<not> P j" unfolding m_def using not_less_Least by blast
  ultimately show ?thesis using \<open>i < n\<close> by (intro exI [of _ m]) simp
qed

lemma join_first_total:
  "[] \<notin> set gs \<Longrightarrow> \<exists>b gs'. join_first r t x gs = Inr (b, gs')"
  by (induction gs) (auto split: list.splits)

lemma fuzzy_group_loop_total:
  "[] \<notin> set gs \<Longrightarrow> \<exists>gs'. fuzzy_group_loop r t xs gs = Inr gs' \<and> [] \<notin> set gs'"
proof (induction xs arbitrary: gs)
  case Nil
  then show ?case by simp
next
  case (Cons x xs)
  from join_first_total [OF Cons.prems] obtain b gs1 where
    j: "join_first r t x gs = Inr (b, gs1)" by blast
  from join_first_nonempty [OF Cons.prems j] have ne: "[] \<notin> set gs1" .
  then have "[] \<notin> set (if \<not> b then gs1 @ [[x]] else gs1)" by simp
  from Cons.IH [OF this] j show ?case by simp
qed

lemma fuzzy_group_snoc:
  "\<exists>gs. fuzzy_group r t names = Inr gs \<and> [] \<notin> set gs \<and>
     fuzzy_group r t (names @ [x]) =
       (case join_first r t x gs of
          Inl e \<Rightarrow> Inl e
        | Inr (added, gs1) \<Rightarrow> Inr (if \<not> added then gs1 @ [[x]] else gs1))"
proof -
  have "[] \<notin> set ([] :: 'a list list)" by simp
  from fuzzy_group_loop_total [OF this, of r t names] obtain gs where
    gs: "fuzzy_group_loop r t names [] = Inr gs" "[] \<notin> set gs" by blast
  have "fuzzy_group r t (names @ [x]) = fuzzy_group_loop r t [x] gs"
    unfolding fuzzy_group_def fuzzy_group_loop_append gs(1) by simp
  also have "\<dots> = (case join_first r t x gs of
          Inl e \<Rightarrow> Inl e
        | Inr (added, gs1) \<Rightarrow> Inr (if \<not> added then gs1 @ [[x]] else gs1))"
    by (simp split: sum.splits)
  finally show ?thesis using gs by (simp add: fuzzy_group_def)
qed

text \<open>
  Claim C4. Fuzzy clustering goes through the names once, in input order: the clusters of
  \<open>names @ [x]\<close> are those of \<open>names\<close> after one step for \<open>x\<close>. In that step \<open>x\<close> is scored
  only against the first (first-inserted) element of each existing cluster; it is appended
  to the first cluster whose first element scores at least the threshold, and when there
  is none it starts a new singleton cluster at the end. No cluster is empty, so the read
  of the first element never fails.
\<close>

theorem fuzzy_group_greedy_first_element:
  "fuzzy_group r t [] = Inr [] \<and>
   (\<exists>gs gs'. fuzzy_group r t names = Inr gs \<and> [] \<notin> set gs \<and>
      fuzzy_group r t (names @ [x]) = Inr gs' \<and>
      ((\<exists>i<length gs. t \<le> r x (hd (gs ! i)) \<and> (\<forall>j<i. r x (hd (gs ! j)) < t) \<and>
          gs' = gs[i := gs ! i @ [x]]) \<or>
       ((\<forall>j<length gs. r x (hd (gs ! j)) < t) \<and> gs' = gs @ [[x]])))"
proof
  show "fuzzy_group r t [] = Inr []" by (simp add: fuzzy_group_def)
next
  from fuzzy_group_snoc [of r t names x] obtain gs where
    gs: "fuzzy_group r t names = Inr gs" "[] \<notin> set gs"
    and step: "fuzzy_group r t (names @ [x]) =
       (case join_first r t x gs of
          Inl e \<Rightarrow> Inl e
        | Inr (added, gs1) \<Rightarrow> Inr (if \<not> added then gs1 @ [[x]] else gs1))"
    by blast
  show "\<exists>gs gs'. fuzzy_group r t names = Inr gs \<and> [] \<notin> set gs \<and>
      fuzzy_group r t (names @ [x]) = Inr gs' \<and>
      ((\<exists>i<length gs. t \<le> r x (hd (gs ! i)) \<and> (\<forall>j<i. r x (hd (gs ! j)) < t) \<and>
          gs' = gs[i := gs ! i @ [x]]) \<or>
       ((\<forall>j<length gs. r x (hd (gs ! j)) < t) \<and> gs' = gs @ [[x]]))"
  proof (cases "\<exists>i<length gs. t \<le> r x (hd (gs ! i))")
    case True
    from first_match_cases [of "length gs" "\<lambda>i. t \<le> r x (hd (gs ! i))", OF True]
    obtain i where i: "i < length gs" "t \<le> r x (hd (gs ! i))"
      "\<forall>j<i. \<not> t \<le> r x (hd (gs ! j))" by blast
    from i(3) have lt: "\<forall>j<i. r x (hd (gs ! j)) < t" by (simp add: not_le)
    from join_first_some [where r = r and x = x and t = t, OF gs(2) i(1) i(2) lt]
    have "fuzzy_group r t (names @ [x]) = Inr (gs[i := gs ! i @ [x]])"
      unfolding step by simp
    with gs i(1,2) lt show ?thesis by blast
  next
    case False
    then have lt: "\<forall>j<length gs. r x (hd (gs ! j)) < t" by (simp add: not_le)
    then have "\<forall>g\<in>set gs. r x (hd g) < t" by (metis in_set_conv_nth)
    from join_first_none [where r = r and x = x and t = t, OF gs(2) this]
    have "fuzzy_group r t (names @ [x]) = Inr (gs @ [[x]])"
      unfolding step by simp
    with gs lt show ?thesis by blast
  qed
qed

theorem fuzzy_group_greedy_first_element_witness:
  "(\<exists>gs gs'. fuzzy_group (\<lambda>a b. if take 4 a = take 4 b then (90::nat) else 0) 80
                 [''Acme Corp'', ''Globex''] = Inr gs \<and> [] \<notin> set gs \<and>
      fuzzy_group (\<lambda>a b. if take 4 a = take 4 b then (90::nat) else 0) 80
                 ([''Acme Corp'', ''Globex''] @ [''Acme Corporation'']) = Inr gs' \<and>
      ((\<exists>i<length gs. 80 \<le> (if take 4 ''Acme Corporation'' = take 4 (hd (gs ! i)) then (90::nat) else 0) \<and>
          (\<forall>j<i. (if take 4 ''Acme Corporation'' = take 4 (hd (gs ! j)) then (90::nat) else 0) < 80) \<and>
          gs' = gs[i := gs ! i @ [''Acme Corporation'']]) \<or>
       ((\<forall>j<length gs. (if take 4 ''Acme Corporation'' = take 4 (hd (gs ! j)) then (90::nat) else 0) < 80) \<and>
          gs' = gs @ [[''Acme Corporation'']]))) \<and>
   fuzzy_group (\<lambda>a b. if take 4 a = take 4 b then (90::nat) else 0) 80
     [''Acme Corp'', ''Globex'', ''Acme Corporation''] =
     Inr [[''Acme Corp'', ''Acme Corporation''], [''Globex'']]"
proof
  show "\<exists>gs gs'. fuzzy_group (\<lambda>a b. if take 4 a = take 4 b then (90::nat) else 0) 80
                 [''Acme Corp'', ''Globex''] = Inr gs \<and> [] \<notin> set gs \<and>
      fuzzy_group (\<lambda>a b. if take 4 a = take 4 b then (90::nat) else 0) 80
                 ([''Acme Corp'', ''Globex''] @ [''Acme Corporation'']) = Inr gs' \<and>
      ((\<exists>i<length gs. 80 \<le> (if take 4 ''Acme Corporation'' = take 4 (hd (gs ! i)) then (90::nat) else 0) \<and>
          (\<forall>j<i. (if take 4 ''Acme Corporation'' = take 4 (hd (gs ! j)) then (90::nat) else 0) < 80) \<and>
          gs' = gs[i := gs ! i @ [''Acme Corporation'']]) \<or>
       ((\<forall>j<length gs. (if take 4 ''Acme Corporation'' = take 4 (hd (gs ! j)) then (90::nat) else 0) < 80) \<and>
          gs' = gs @ [[''Acme Corporation'']]))"
    using fuzzy_group_greedy_first_element
      [of "\<lambda>a b. if take 4 a = take 4 b then (90::nat) else 0" 80
          "[''Acme Corp'', ''Globex'']" "''Acme Corporation''"]
    by (elim conjE)
next
  show "fuzzy_group (\<lambda>a b. if take 4 a = take 4 b then (90::nat) else 0) 80
     [''Acme Corp'', ''Globex'', ''Acme Corporation''] =
     Inr [[''Acme Corp'', ''Acme Corporation''], [''Globex'']]"
    by (simp add: fuzzy_group_def)
qed

lemma fuzzy_group_loop_singletons:
  assumes "distinct (seen @ xs)"
    and "\<forall>a\<in>set (seen @ xs). \<forall>b\<in>set (seen @ xs). t \<le> r a b \<longrightarrow> a = b"
  shows "fuzzy_group_loop r t xs (map (\<lambda>n. [n]) seen) = Inr (map (\<lambda>n. [n]) (seen @ xs))"
  using assms
proof (induction xs arbitrary: seen)
  case Nil
  then show ?case by simp
next
  case (Cons x xs)
  have ne: "[] \<notin> set (map (\<lambda>n. [n]) seen)" by auto
  have "\<forall>g\<in>set (map (\<lambda>n. [n]) seen). r x (hd g) < t"
  proof
    fix g assume "g \<in> set (map (\<lambda>n. [n]) seen)"
    then obtain d where d: "d \<in> set seen" "g = [d]" by auto
    from Cons.prems(1) d(1) have "x \<noteq> d" by auto
    with Cons.prems(2) d(1) have "\<not> t \<le> r x d" by auto
    then show "r x (hd g) < t" using d(2) by (simp add: not_le)
  qed
  from join_first_none [where r = r and x = x and t = t, OF ne this]
  have j: "join_first r t x (map (\<lambda>n. [n]) seen) = Inr (False, map (\<lambda>n. [n]) seen)" .
  have "fuzzy_group_loop r t xs (map (\<lambda>n. [n]) (seen @ [x])) =
          Inr (map (\<lambda>n. [n]) ((seen @ [x]) @ xs))"
    by (rule Cons.IH) (use Cons.prems in simp_all)
  then show ?case using j by simp
qed

text \<open>
  Claim C8. With threshold 100, on a non-empty list of pairwise different names, fuzzy
  clustering yields singleton clusters only (one per name, in input order). The scorer is
  the library's; what is used of it is that a score of 100 or more is given to equal
  strings only.
\<close>

theorem fuzzy_group_threshold_100_singletons:
  fixes r :: "'a \<Rightarrow> 'a \<Rightarrow> 's::{linorder,numeral}"
  assumes "names \<noteq> []" and "distinct names"
    and "\<forall>a\<in>set names. \<forall>b\<in>set names. 100 \<le> r a b \<longrightarrow> a = b"
  shows "\<exists>gs. fuzzy_group r 100 names = Inr gs \<and> gs \<noteq> [] \<and> (\<forall>g\<in>set gs. length g = 1) \<and>
           gs = map (\<lambda>n. [n]) names"
proof -
  have "fuzzy_group_loop r 100 names (map (\<lambda>n. [n]) []) = Inr (map (\<lambda>n. [n]) ([] @ names))"
    by (rule fuzzy_group_loop_singletons) (use assms in simp_all)
  then have "fuzzy_group r 100 names = Inr (map (\<lambda>n. [n]) names)"
    by (simp add: fuzzy_group_def)
  moreover have "map (\<lambda>n. [n]) names \<noteq> []" using assms(1) by simp
  moreover have "\<forall>g\<in>set (map (\<lambda>n. [n]) names). length g = 1" by auto
  ultimately show ?thesis by blast
qed

theorem fuzzy_group_threshold_100_singletons_witness:
  "[''Acme'', ''Acme Corp'', ''Globex''] \<noteq> [] \<and> distinct [''Acme'', ''Acme Corp'', ''Globex''] \<and>
   fuzzy_group (\<lambda>a b. if a = b then (100::nat) else if take 4 a = take 4 b then 90 else 0) 100
      [''Acme'', ''Acme Corp'', ''Globex''] = Inr [[''Acme''], [''Acme Corp''], [''Globex'']]"
proof -
  have h1: "[''Acme'', ''Acme Corp'', ''Globex''] \<noteq> []" by simp
  have h2: "distinct [''Acme'', ''Acme Corp'', ''Globex'']" by simp
  have h3: "\<forall>a\<in>set [''Acme'', ''Acme Corp'', ''Globex'']. \<forall>b\<in>set [''Acme'', ''Acme Corp'', ''Globex''].
      100 \<le> (if a = b then (100::nat) else if take 4 a = take 4 b then 90 else 0) \<longrightarrow> a = b"
    by simp
  from fuzzy_group_threshold_100_singletons
    [of "[''Acme'', ''Acme Corp'', ''Globex'']"
        "\<lambda>a b. if a = b then (100::nat) else if take 4 a = take 4 b then 90 else 0", OF h1 h2 h3]
  have "fuzzy_group (\<lambda>a b. if a = b then (100::nat) else if take 4 a = take 4 b then 90 else 0) 100
      [''Acme'', ''Acme Corp'', ''Globex''] = Inr [[''Acme''], [''Acme Corp''], [''Globex'']]"
    by auto
  with h1 h2 show ?thesis by blast
qed

section \<open>Merging: properties\<close>

subsection \<open>The log only grows\<close>

lemma move_items_log:
  "\<exists>evs. mlog (final_state (move_items rep f items s)) = mlog s @ evs"
proof (induction items arbitrary: s)
  case Nil
  then show ?case by simp
next
  case (Cons item items)
  show ?case
  proof (cases "exists_at (dirs s) rep item")
    case True
    from Cons.IH [of "s\<lparr>mlog := mlog s @ [PrintConflict rep f item]\<rparr>"] True
    show ?thesis by auto
  next
    case False
    show ?thesis
    proof (cases "shutil_move (dirs s) f item rep")
      case (Inl e)
      with False show ?thesis by simp
    next
      case (Inr d')
      from Cons.IH [of "s\<lparr>dirs := d', mlog := mlog s @ [ShutilMove f item rep]\<rparr>"] False Inr
      show ?thesis by auto
    qed
  qed
qed

lemma try_rmdir_log: "\<exists>evs. mlog (try_rmdir f s) = mlog s @ evs"
  by (auto simp: try_rmdir_def split: option.splits node.splits list.splits)

lemma merge_folder_log:
  "\<exists>evs. mlog (final_state (merge_folder rep f s)) = mlog s @ evs"
proof (cases "f = rep")
  case True
  then show ?thesis by (simp add: merge_folder_def)
next
  case False
  show ?thesis
  proof (cases "map_of (dirs s) f")
    case None
    with False show ?thesis by (simp add: merge_folder_def)
  next
    case (Some nd)
    show ?thesis
    proof (cases nd)
      case File
      with False Some show ?thesis by (simp add: merge_folder_def)
    next
      case DanglingLink
      with False Some show ?thesis by (simp add: merge_folder_def)
    next
      case (Folder children)
      from move_items_log [of rep f "map fst children" s] obtain evs where
        e: "mlog (final_state (move_items rep f (map fst children) s)) = mlog s @ evs" by blast
      show ?thesis
      proof (cases "move_items rep f (map fst children) s")
        case (Inl err)
        with e False Some Folder show ?thesis by (cases err) (simp add: merge_folder_def)
      next
        case (Inr s1)
        from try_rmdir_log [of f s1] obtain evs' where "mlog (try_rmdir f s1) = mlog s1 @ evs'"
          by blast
        with e Inr False Some Folder show ?thesis by (simp add: merge_folder_def)
      qed
    qed
  qed
qed

lemma merge_folders_log:
  "\<exists>evs. mlog (final_state (merge_folders rep fs s)) = mlog s @ evs"
proof (induction fs arbitrary: s)
  case Nil
  then show ?case by simp
next
  case (Cons f fs)
  from merge_folder_log [of rep f s] obtain evs where
    e: "mlog (final_state (merge_folder rep f s)) = mlog s @ evs" by blast
  show ?case
  proof (cases "merge_folder rep f s")
    case (Inl err)
    with e show ?thesis by (cases err) simp
  next
    case (Inr s1)
    from Cons.IH [of s1] obtain evs' where
      "mlog (final_state (merge_folders rep fs s1)) = mlog s1 @ evs'" by blast
    with e Inr show ?thesis by simp
  qed
qed

lemma merge_group_log:
  "\<exists>evs. mlog (final_state (merge_group grp s)) = mlog s @ evs"
proof (cases "length grp > 1 \<and> path_exists (dirs s) (sort grp ! 0)")
  case True
  from merge_folders_log [of "sort grp ! 0" "sort grp"
         "s\<lparr>mlog := mlog s @ [PrintMerging (sort grp) (sort grp ! 0)]\<rparr>"]
  show ?thesis using True by (auto simp: merge_group_def Let_def)
next
  case False
  then show ?thesis by (auto simp: merge_group_def Let_def)
qed

lemma merge_directories_log:
  "\<exists>evs. mlog (final_state (merge_directories groups s)) = mlog s @ evs"
proof (induction groups arbitrary: s)
  case Nil
  then show ?case by simp
next
  case (Cons g groups)
  from merge_group_log [of g s] obtain evs where
    e: "mlog (final_state (merge_group g s)) = mlog s @ evs" by blast
  show ?case
  proof (cases "merge_group g s")
    case (Inl err)
    with e show ?thesis by (cases err) simp
  next
    case (Inr s1)
    from Cons.IH [of s1] obtain evs' where
      "mlog (final_state (merge_directories groups s1)) = mlog s1 @ evs'" by blast
    with e Inr show ?thesis by simp
  qed
qed

subsection \<open>The run of the merge script\<close>

lemma fuzzy_group_total: "\<exists>gs. fuzzy_group r t names = Inr gs"
proof -
  have "[] \<notin> set ([] :: 'a list list)" by simp
  from fuzzy_group_loop_total [OF this, of r t names] show ?thesis
    by (auto simp: fuzzy_group_def)
qed

lemma main_log:
  "\<exists>n groups evs.
     mlog (final_state (main ratio d answer)) =
       [PrintFound n, PrintSuggestions (suggestions groups), InputConfirm answer] @ evs \<and>
     (lower (strip answer) \<noteq> ''y'' \<longrightarrow>
        evs = [PrintCancelled] \<and> dirs (final_state (main ratio d answer)) = d)"
proof -
  let ?customers = "map fst (filter (\<lambda>(name, nd). is_dir nd) d)"
  from fuzzy_group_total [of ratio 80 ?customers] obtain groups where
    g: "fuzzy_group ratio 80 ?customers = Inr groups" by blast
  let ?s1 = "\<lparr>dirs = d, mlog = [PrintFound (length ?customers),
                PrintSuggestions (suggestions groups), InputConfirm answer]\<rparr>"
  show ?thesis
  proof (cases "lower (strip answer) = ''y''")
    case False
    then have "main ratio d answer = Inr (?s1\<lparr>mlog := mlog ?s1 @ [PrintCancelled]\<rparr>)"
      by (simp add: main_def Let_def g)
    with False show ?thesis
      by (intro exI [of _ "length ?customers"] exI [of _ groups] exI [of _ "[PrintCancelled]"])
         simp
  next
    case True
    from merge_directories_log [of groups ?s1] obtain evs where
      e: "mlog (final_state (merge_directories groups ?s1)) = mlog ?s1 @ evs" by blast
    show ?thesis
    proof (cases "merge_directories groups ?s1")
      case (Inl err)
      then have "main ratio d answer = Inl err" using True by (simp add: main_def Let_def g)
      with e Inl True have
        "mlog (final_state (main ratio d answer)) =
           [PrintFound (length ?customers), PrintSuggestions (suggestions groups),
            InputConfirm answer] @ evs \<and>
         (lower (strip answer) \<noteq> ''y'' \<longrightarrow>
            evs = [PrintCancelled] \<and> dirs (final_state (main ratio d answer)) = d)"
        by (cases err) simp
      then show ?thesis by blast
    next
      case (Inr s2)
      then have "main ratio d answer = Inr (s2\<lparr>mlog := mlog s2 @ [PrintCompleted]\<rparr>)"
        using True by (simp add: main_def Let_def g)
      with e Inr True have
        "mlog (final_state (main ratio d answer)) =
           [PrintFound (length ?customers), PrintSuggestions (suggestions groups),
            InputConfirm answer] @ (evs @ [PrintCompleted]) \<and>
         (lower (strip answer) \<noteq> ''y'' \<longrightarrow>
            evs @ [PrintCompleted] = [PrintCancelled] \<and>
            dirs (final_state (main ratio d answer)) = d)"
        by simp
      then show ?thesis by blast
    qed
  qed
qed

lemma gated_from_confirmed: "gated_from True True tr"
proof (induction tr)
  case Nil
  then show ?case by simp
next
  case (Cons a tr)
  then show ?case by (cases a) simp_all
qed

subsection \<open>Example runs and the confirmation gate\<close>

lemma demo_groups:
  "fuzzy_group demo_ratio 80 [''Acme Corp'', ''Acme Corporation'', ''Globex''] =
     Inr [[''Acme Corp'', ''Acme Corporation''], [''Globex'']]"
  by (simp add: fuzzy_group_def demo_ratio_def)

lemma sort_demo: "sort [''Acme Corp'', ''Acme Corporation''] = [''Acme Corp'', ''Acme Corporation'']"
  by simp

lemma demo_merge:
  "merge_directories [[''Acme Corp'', ''Acme Corporation''], [''Globex'']]
     \<lparr>dirs = demo_root, mlog = []\<rparr> =
   Inr \<lparr>dirs = [(''Acme Corp'', Folder [(''a.pdf'', RegularFile, 1), (''b.pdf'', RegularFile, 2), (''c.pdf'', RegularFile, 4)]),
               (''Acme Corporation'', Folder [(''b.pdf'', RegularFile, 3)]),
               (''Globex'', Folder []),
               (''notes.txt'', File)],
        mlog = [PrintMerging [''Acme Corp'', ''Acme Corporation''] ''Acme Corp'',
                PrintConflict ''Acme Corp'' ''Acme Corporation'' ''b.pdf'',
                ShutilMove ''Acme Corporation'' ''c.pdf'' ''Acme Corp'',
                OsRmdir ''Acme Corporation'', PrintCouldNotRemove ''Acme Corporation'']\<rparr>"
  by (simp add: merge_group_def merge_folder_def exists_at_def path_exists_def shutil_move_def
        try_rmdir_def demo_root_def Let_def sort_demo)


lemma demo_main_yes:
  "main demo_ratio demo_root '' Y '' =
   Inr \<lparr>dirs = [(''Acme Corp'', Folder [(''a.pdf'', RegularFile, 1), (''b.pdf'', RegularFile, 2), (''c.pdf'', RegularFile, 4)]),
               (''Acme Corporation'', Folder [(''b.pdf'', RegularFile, 3)]),
               (''Globex'', Folder []),
               (''notes.txt'', File)],
        mlog = [PrintFound 3,
                PrintSuggestions [(''Acme Corp'', [''Acme Corp'', ''Acme Corporation''])],
                InputConfirm '' Y '',
                PrintMerging [''Acme Corp'', ''Acme Corporation''] ''Acme Corp'',
                PrintConflict ''Acme Corp'' ''Acme Corporation'' ''b.pdf'',
                ShutilMove ''Acme Corporation'' ''c.pdf'' ''Acme Corp'',
                OsRmdir ''Acme Corporation'', PrintCouldNotRemove ''Acme Corporation'',
                PrintCompleted]\<rparr>"
proof -
  have c: "map fst (filter (\<lambda>(name, nd). is_dir nd) demo_root) =
             [''Acme Corp'', ''Acme Corporation'', ''Globex'']"
    by (simp add: demo_root_def)
  have y: "lower (strip '' Y '') = ''y''"
    by (simp add: lower_def strip_def is_space_def lower_char_def is_upper_def Let_def)
  show ?thesis
    unfolding main_def c Let_def demo_groups y
    by (simp add: merge_group_def merge_folder_def exists_at_def path_exists_def shutil_move_def
          try_rmdir_def demo_root_def Let_def sort_demo suggestions_def)
qed

text \<open>
  Claim C2 (counterexample). The deduplication script changes the file system with no
  plan displayed and no confirmation: on the example folder it calls \<^verbatim>\<open>os.remove\<close> on
  \<open>Invoice.pdf\<close>, and nothing before that call is a confirmation, the script reading no
  input at all.
\<close>

theorem deduplicate_folder_not_gated:
  "deduplicate_folder demo_md5 (Directory demo_folder) =
     Inr \<lparr>folder =
            [\<lparr>fname = ''Invoice_copy.pdf'', is_file = Inr True,
               open_rb = Inr [ReadReturns invoice_bytes, ReadReturns []],
               st_mtime = 20, st_size = 1536, removable = True\<rparr>,
             \<lparr>fname = ''Notes.txt'', is_file = Inr True,
               open_rb = Inr [ReadReturns ''9e107d9'', ReadReturns []],
               st_mtime = 5, st_size = 7, removable = True\<rparr>,
             \<lparr>fname = ''.DS_Store'', is_file = Inr True,
               open_rb = Inr [ReadReturns invoice_bytes, ReadReturns []],
               st_mtime = 30, st_size = 1536, removable = True\<rparr>,
             \<lparr>fname = ''Locked.pdf'', is_file = Inr True, open_rb = Inl PermissionError,
               st_mtime = 40, st_size = 99, removable = True\<rparr>],
          out = [PrintScanning, CalcHash ''Invoice.pdf'', CalcHash ''Invoice_copy.pdf'',
                 CalcHash ''Notes.txt'', CalcHash ''Locked.pdf'', PrintErrorReading ''Locked.pdf'',
                 PrintDuplicateGroup ''d41d'' ''Invoice_copy.pdf'',
                 OsRemove ''Invoice.pdf'', PrintDeleted ''Invoice.pdf'',
                 PrintComplete 1 ''1.5 KB''],
          total_removed = 1, total_space = 1536\<rparr> \<and>
   \<not> gated (map dedup_step
          [PrintScanning, CalcHash ''Invoice.pdf'', CalcHash ''Invoice_copy.pdf'',
           CalcHash ''Notes.txt'', CalcHash ''Locked.pdf'', PrintErrorReading ''Locked.pdf'',
           PrintDuplicateGroup ''d41d'' ''Invoice_copy.pdf'',
           OsRemove ''Invoice.pdf'', PrintDeleted ''Invoice.pdf'',
           PrintComplete 1 ''1.5 KB''])"
  by (simp add: demo_run gated_def)

text \<open>
  Claim C2 (amended). Every run of the merge script is gated: whatever the scorer, the
  root directory and the answer typed, each move and each removal of a folder comes after
  the merge suggestions have been printed and after the answer \<open>y\<close> (up to surrounding
  white space and case) has been read; this holds too for a run stopped by an exception.
  With any other answer the root directory is left as it was and no step of the run is a
  change. (The script has no override flag; the deduplication script has no gate.)
\<close>

theorem merge_run_gated:
  "gated (map merge_step (mlog (final_state (main ratio d answer)))) \<and>
   (lower (strip answer) \<noteq> ''y'' \<longrightarrow>
      dirs (final_state (main ratio d answer)) = d \<and>
      (\<forall>ev\<in>set (mlog (final_state (main ratio d answer))). merge_step ev \<noteq> Mutation))"
proof -
  from main_log [of ratio d answer] obtain n groups evs where
    l: "mlog (final_state (main ratio d answer)) =
       [PrintFound n, PrintSuggestions (suggestions groups), InputConfirm answer] @ evs"
    and no: "lower (strip answer) \<noteq> ''y'' \<longrightarrow>
        evs = [PrintCancelled] \<and> dirs (final_state (main ratio d answer)) = d"
    by blast
  show ?thesis
  proof (cases "lower (strip answer) = ''y''")
    case True
    then show ?thesis unfolding l by (simp add: gated_def gated_from_confirmed)
  next
    case False
    with no have "evs = [PrintCancelled]" and "dirs (final_state (main ratio d answer)) = d"
      by simp_all
    with False show ?thesis unfolding l by (simp add: gated_def)
  qed
qed

theorem merge_run_gated_witness:
  "lower (strip ''n'') \<noteq> ''y'' \<and>
   dirs (final_state (main demo_ratio demo_root ''n'')) = demo_root \<and>
   gated (map merge_step (mlog (final_state (main demo_ratio demo_root '' Y '')))) \<and>
   ShutilMove ''Acme Corporation'' ''c.pdf'' ''Acme Corp''
     \<in> set (mlog (final_state (main demo_ratio demo_root '' Y '')))"
proof -
  have n: "lower (strip ''n'') \<noteq> ''y''"
    by (simp add: lower_def strip_def is_space_def lower_char_def is_upper_def Let_def)
  from merge_run_gated [of demo_ratio demo_root "''n''"] n
  have a: "dirs (final_state (main demo_ratio demo_root ''n'')) = demo_root" by blast
  from merge_run_gated [of demo_ratio demo_root "'' Y ''"]
  have b: "gated (map merge_step (mlog (final_state (main demo_ratio demo_root '' Y ''))))"
    by blast
  have c: "ShutilMove ''Acme Corporation'' ''c.pdf'' ''Acme Corp''
     \<in> set (mlog (final_state (main demo_ratio demo_root '' Y '')))"
    by (simp add: demo_main_yes)
  from n a b c show ?thesis by blast
qed

subsection \<open>Moves go to the representative\<close>

lemma move_items_dest:
  "\<exists>evs. mlog (final_state (move_items rep f items s)) = mlog s @ evs \<and>
         (\<forall>f' i r. ShutilMove f' i r \<in> set evs \<longrightarrow> r = rep)"
proof (induction items arbitrary: s)
  case Nil
  then show ?case by simp
next
  case (Cons item items)
  show ?case
  proof (cases "exists_at (dirs s) rep item")
    case True
    from Cons.IH [of "s\<lparr>mlog := mlog s @ [PrintConflict rep f item]\<rparr>"] obtain evs where
      "mlog (final_state (move_items rep f items (s\<lparr>mlog := mlog s @ [PrintConflict rep f item]\<rparr>))) =
         mlog s @ [PrintConflict rep f item] @ evs"
      "\<forall>f' i r. ShutilMove f' i r \<in> set evs \<longrightarrow> r = rep" by auto
    with True show ?thesis
      by (intro exI [of _ "[PrintConflict rep f item] @ evs"]) simp
  next
    case False
    show ?thesis
    proof (cases "shutil_move (dirs s) f item rep")
      case (Inl e)
      with False show ?thesis by (intro exI [of _ "[ShutilMove f item rep]"]) simp
    next
      case (Inr d')
      from Cons.IH [of "s\<lparr>dirs := d', mlog := mlog s @ [ShutilMove f item rep]\<rparr>"] obtain evs where
        "mlog (final_state (move_items rep f items
            (s\<lparr>dirs := d', mlog := mlog s @ [ShutilMove f item rep]\<rparr>))) =
         mlog s @ [ShutilMove f item rep] @ evs"
        "\<forall>f' i r. ShutilMove f' i r \<in> set evs \<longrightarrow> r = rep" by auto
      with False Inr show ?thesis
        by (intro exI [of _ "[ShutilMove f item rep] @ evs"]) auto
    qed
  qed
qed

lemma try_rmdir_dest:
  "\<exists>evs. mlog (try_rmdir f s) = mlog s @ evs \<and> (\<forall>f' i r. ShutilMove f' i r \<notin> set evs)"
  by (auto simp: try_rmdir_def split: option.splits node.splits list.splits)

lemma merge_folder_dest:
  "\<exists>evs. mlog (final_state (merge_folder rep f s)) = mlog s @ evs \<and>
         (\<forall>f' i r. ShutilMove f' i r \<in> set evs \<longrightarrow> r = rep)"
proof (cases "f = rep")
  case True
  then show ?thesis by (simp add: merge_folder_def)
next
  case False
  show ?thesis
  proof (cases "map_of (dirs s) f")
    case None
    with False show ?thesis by (simp add: merge_folder_def)
  next
    case (Some nd)
    show ?thesis
    proof (cases nd)
      case File
      with False Some show ?thesis by (simp add: merge_folder_def)
    next
      case DanglingLink
      with False Some show ?thesis by (simp add: merge_folder_def)
    next
      case (Folder children)
      from move_items_dest [of rep f "map fst children" s] obtain evs where
        e: "mlog (final_state (move_items rep f (map fst children) s)) = mlog s @ evs"
           "\<forall>f' i r. ShutilMove f' i r \<in> set evs \<longrightarrow> r = rep" by blast
      show ?thesis
      proof (cases "move_items rep f (map fst children) s")
        case (Inl err)
        with e False Some Folder show ?thesis
          by (intro exI [of _ evs]) (cases err, simp add: merge_folder_def)
      next
        case (Inr s1)
        from try_rmdir_dest [of f s1] obtain evs' where
          e': "mlog (try_rmdir f s1) = mlog s1 @ evs'" "\<forall>f' i r. ShutilMove f' i r \<notin> set evs'"
          by blast
        with e Inr False Some Folder show ?thesis
          by (intro exI [of _ "evs @ evs'"]) (auto simp: merge_folder_def)
      qed
    qed
  qed
qed

lemma merge_folders_dest:
  "\<exists>evs. mlog (final_state (merge_folders rep fs s)) = mlog s @ evs \<and>
         (\<forall>f' i r. ShutilMove f' i r \<in> set evs \<longrightarrow> r = rep)"
proof (induction fs arbitrary: s)
  case Nil
  then show ?case by simp
next
  case (Cons f fs)
  from merge_folder_dest [of rep f s] obtain evs where
    e: "mlog (final_state (merge_folder rep f s)) = mlog s @ evs"
       "\<forall>f' i r. ShutilMove f' i r \<in> set evs \<longrightarrow> r = rep" by blast
  show ?case
  proof (cases "merge_folder rep f s")
    case (Inl err)
    with e show ?thesis by (intro exI [of _ evs]) (cases err, simp)
  next
    case (Inr s1)
    from Cons.IH [of s1] obtain evs' where
      e': "mlog (final_state (merge_folders rep fs s1)) = mlog s1 @ evs'"
          "\<forall>f' i r. ShutilMove f' i r \<in> set evs' \<longrightarrow> r = rep" by blast
    with e Inr show ?thesis by (intro exI [of _ "evs @ evs'"]) auto
  qed
qed

subsection \<open>The representative of a group\<close>

lemma sort_first_in: "xs \<noteq> [] \<Longrightarrow> sort xs ! 0 \<in> set xs"
proof -
  assume "xs \<noteq> []"
  then have "0 < length (sort xs)" by simp
  then have "sort xs ! 0 \<in> set (sort xs)" by (rule nth_mem)
  then show ?thesis by simp
qed

lemma sort_first_least:
  fixes xs :: "'a::linorder list"
  assumes "x \<in> set xs"
  shows "sort xs ! 0 \<le> x"
proof -
  from assms have "x \<in> set (sort xs)" by simp
  then obtain i where i: "i < length (sort xs)" "sort xs ! i = x"
    unfolding in_set_conv_nth by blast
  have "sorted (sort xs)" by simp
  from sorted_nth_mono [OF this, of 0 i] i show ?thesis by simp
qed

subsection \<open>Groups whose representative is missing\<close>

text \<open>
  The representative of a group of at least two names, \<open>sort grp ! 0\<close>, is a name of the
  group and is the least of them in the order of strings (alphabetically first). Where
  \<^verbatim>\<open>os.path.exists\<close> is false of it (no entry of that name in the root, or a link whose
  target is missing), the group is reported and skipped, the file system staying as it
  is, and the run goes on with the remaining groups. Where \<^verbatim>\<open>os.path.exists\<close> holds, the
  group is merged into it: every move of the merge has the representative as its
  destination.
\<close>

lemma merge_group_representative:
  assumes "length grp > 1"
  shows "sort grp ! 0 \<in> set grp \<and> (\<forall>n\<in>set grp. sort grp ! 0 \<le> n) \<and>
     (\<not> path_exists (dirs s) (sort grp ! 0) \<longrightarrow>
        merge_group grp s = Inr (s\<lparr>mlog := mlog s @ [PrintRepMissing (sort grp ! 0) grp]\<rparr>) \<and>
        merge_directories (grp # rest) s =
          merge_directories rest (s\<lparr>mlog := mlog s @ [PrintRepMissing (sort grp ! 0) grp]\<rparr>)) \<and>
     (path_exists (dirs s) (sort grp ! 0) \<longrightarrow>
        merge_group grp s =
          merge_folders (sort grp ! 0) (sort grp)
            (s\<lparr>mlog := mlog s @ [PrintMerging (sort grp) (sort grp ! 0)]\<rparr>) \<and>
        (\<exists>evs. mlog (final_state (merge_group grp s)) = mlog s @ evs \<and>
           (\<forall>f i r. ShutilMove f i r \<in> set evs \<longrightarrow> r = sort grp ! 0)))"
proof (intro conjI impI ballI)
  from assms have ne: "grp \<noteq> []" by auto
  show "sort grp ! 0 \<in> set grp" by (rule sort_first_in [OF ne])
  show "\<And>n. n \<in> set grp \<Longrightarrow> sort grp ! 0 \<le> n" by (rule sort_first_least)
next
  assume m: "\<not> path_exists (dirs s) (sort grp ! 0)"
  with assms show g: "merge_group grp s =
      Inr (s\<lparr>mlog := mlog s @ [PrintRepMissing (sort grp ! 0) grp]\<rparr>)"
    by (simp add: merge_group_def Let_def)
  then show "merge_directories (grp # rest) s =
          merge_directories rest (s\<lparr>mlog := mlog s @ [PrintRepMissing (sort grp ! 0) grp]\<rparr>)"
    by simp
next
  assume m: "path_exists (dirs s) (sort grp ! 0)"
  with assms show g: "merge_group grp s =
          merge_folders (sort grp ! 0) (sort grp)
            (s\<lparr>mlog := mlog s @ [PrintMerging (sort grp) (sort grp ! 0)]\<rparr>)"
    by (simp add: merge_group_def Let_def)
  from merge_folders_dest [of "sort grp ! 0" "sort grp"
         "s\<lparr>mlog := mlog s @ [PrintMerging (sort grp) (sort grp ! 0)]\<rparr>"]
  obtain evs where
    e: "mlog (final_state (merge_group grp s)) = mlog s @ [PrintMerging (sort grp) (sort grp ! 0)] @ evs"
       "\<forall>f i r. ShutilMove f i r \<in> set evs \<longrightarrow> r = sort grp ! 0"
    unfolding g by auto
  show "\<exists>evs. mlog (final_state (merge_group grp s)) = mlog s @ evs \<and>
           (\<forall>f i r. ShutilMove f i r \<in> set evs \<longrightarrow> r = sort grp ! 0)"
    by (rule exI [of _ "[PrintMerging (sort grp) (sort grp ! 0)] @ evs"]) (use e in auto)
qed


lemma sort_demo_rev: "sort [''Acme Corporation'', ''Acme Corp''] = [''Acme Corp'', ''Acme Corporation'']"
  by simp

lemma sort_demo_missing: "sort [''Zeta'', ''Alpha''] = [''Alpha'', ''Zeta'']"
  by simp

text \<open>A run with a group whose representative is missing, and a second group.\<close>

lemma missing_representative_run:
  "merge_directories [[''Zeta'', ''Alpha''], [''Acme Corporation'', ''Acme Corp'']]
     \<lparr>dirs = demo_root, mlog = []\<rparr> =
   Inr \<lparr>dirs = [(''Acme Corp'', Folder [(''a.pdf'', RegularFile, 1), (''b.pdf'', RegularFile, 2),
                                        (''c.pdf'', RegularFile, 4)]),
               (''Acme Corporation'', Folder [(''b.pdf'', RegularFile, 3)]),
               (''Globex'', Folder []),
               (''notes.txt'', File)],
        mlog = [PrintRepMissing ''Alpha'' [''Zeta'', ''Alpha''],
                PrintMerging [''Acme Corp'', ''Acme Corporation''] ''Acme Corp'',
                PrintConflict ''Acme Corp'' ''Acme Corporation'' ''b.pdf'',
                ShutilMove ''Acme Corporation'' ''c.pdf'' ''Acme Corp'',
                OsRmdir ''Acme Corporation'', PrintCouldNotRemove ''Acme Corporation'']\<rparr>"
  by (simp add: merge_group_def merge_folder_def exists_at_def path_exists_def shutil_move_def
        try_rmdir_def demo_root_def Let_def sort_demo_rev sort_demo_missing)



subsection \<open>The effect of merging one folder\<close>








lemma blocked_not_present: "blocked rch fch n \<Longrightarrow> \<not> present rch n"
  by (auto simp: blocked_def present_def)







section \<open>Normalising file names: properties\<close>

lemmas normalize_eval =
  normalize_filename_def patterns_to_remove_def copy_pattern_def paren_pattern_def
  path_stem_def path_name_def strip_def is_space_def is_digit_def ignorecase_def
  lower_char_def is_upper_def Let_def

subsection \<open>Trimming\<close>

lemma last_dropWhile: "dropWhile P xs \<noteq> [] \<Longrightarrow> last (dropWhile P xs) = last xs"
  by (induction xs) (auto split: if_splits)

lemma strip_idem: "strip (strip s) = strip s"
proof -
  define a where "a = dropWhile is_space s"
  define b where "b = dropWhile is_space (rev a)"
  have t: "strip s = rev b" by (simp add: strip_def a_def b_def)
  have front: "dropWhile is_space (rev b) = rev b"
  proof (cases "b = []")
    case True
    then show ?thesis by simp
  next
    case False
    then have ra: "rev a \<noteq> []" unfolding b_def by auto
    then have ane: "a \<noteq> []" by simp
    have "hd (rev b) = last b" using False by (simp add: hd_rev)
    also have "\<dots> = last (rev a)" using False unfolding b_def by (rule last_dropWhile)
    also have "\<dots> = hd a" using ane by (simp add: last_rev)
    finally have "hd (rev b) = hd a" .
    moreover have "\<not> is_space (hd a)" using ane unfolding a_def by (rule hd_dropWhile)
    ultimately show ?thesis by (simp add: dropWhile_eq_self_iff)
  qed
  have rear: "dropWhile is_space b = b" unfolding b_def by simp
  have "strip (rev b) = rev (dropWhile is_space (rev (dropWhile is_space (rev b))))"
    by (simp add: strip_def)
  also have "\<dots> = rev (dropWhile is_space b)" unfolding front by simp
  also have "\<dots> = rev b" unfolding rear ..
  finally show ?thesis unfolding t .
qed

lemma set_strip: "set (strip s) \<subseteq> set s"
proof
  fix x assume "x \<in> set (strip s)"
  then have "x \<in> set (dropWhile is_space (rev (dropWhile is_space s)))" by (simp add: strip_def)
  then have "x \<in> set (rev (dropWhile is_space s))" by (rule set_dropWhileD)
  then have "x \<in> set (dropWhile is_space s)" by simp
  then show "x \<in> set s" by (rule set_dropWhileD)
qed

subsection \<open>Name and stem\<close>

lemma split_on_nonempty: "split_on sep s \<noteq> []"
  by (induction s) (auto split: list.splits)

lemma split_on_no_sep: "sep \<notin> set s \<Longrightarrow> split_on sep s = [s]"
  by (induction s) auto

lemma split_on_parts: "part \<in> set (split_on sep s) \<Longrightarrow> sep \<notin> set part"
proof (induction s arbitrary: part)
  case Nil
  then show ?case by simp
next
  case (Cons x xs)
  show ?case
  proof (cases "x = sep")
    case True
    with Cons show ?thesis by auto
  next
    case False
    obtain w ws where w: "split_on sep xs = w # ws"
      using split_on_nonempty [of sep xs] by (cases "split_on sep xs") auto
    with Cons.prems False have "part = x # w \<or> part \<in> set ws" by simp
    then show ?thesis
    proof
      assume "part = x # w"
      moreover have "sep \<notin> set w" using Cons.IH [of w] w by simp
      ultimately show ?thesis using False by auto
    next
      assume "part \<in> set ws"
      then show ?thesis using Cons.IH [of part] w by simp
    qed
  qed
qed

lemma path_name_no_slash: "CHR ''/'' \<notin> set (path_name p)"
proof (cases "filter (\<lambda>part. part \<noteq> [] \<and> part \<noteq> ''.'') (split_on CHR ''/'' p)")
  case Nil
  then show ?thesis by (simp add: path_name_def)
next
  case (Cons part parts)
  then have "last (part # parts) \<in> set (filter (\<lambda>part. part \<noteq> [] \<and> part \<noteq> ''.'') (split_on CHR ''/'' p))"
    by (metis last_in_set list.distinct(1))
  then have "last (part # parts) \<in> set (split_on CHR ''/'' p)" by simp
  from split_on_parts [OF this] Cons show ?thesis by (simp add: path_name_def)
qed

lemma set_path_stem: "set (path_stem p) \<subseteq> set (path_name p)"
  by (auto simp: path_stem_def Let_def split: option.splits dest: in_set_takeD)

lemma rfind_absent: "c \<notin> set s \<Longrightarrow> rfind c s = None"
  by (induction s) auto

lemma path_stem_plain:
  assumes "CHR ''/'' \<notin> set y" and "CHR ''.'' \<notin> set y"
  shows "path_stem y = y"
proof -
  have "y \<noteq> ''.''" using assms(2) by auto
  then have "path_name y = y"
    using split_on_no_sep [OF assms(1)] by (cases "y = []") (simp_all add: path_name_def)
  then show ?thesis using rfind_absent [OF assms(2)] by (simp add: path_stem_def)
qed

subsection \<open>Substitution\<close>

lemma set_re_sub: "set (re_sub p s) \<subseteq> set s"
proof (induction p s rule: re_sub.induct)
  case (1 p)
  then show ?case by simp
next
  case (2 p x xs)
  show ?case
  proof (cases "match_here p (x # xs)")
    case None
    with 2 show ?thesis by auto
  next
    case (Some n)
    show ?thesis
    proof (cases "n = 0")
      case True
      with 2 Some show ?thesis by auto
    next
      case False
      from 2(3) [OF Some False] have "set (re_sub p (drop (n - 1) xs)) \<subseteq> set (drop (n - 1) xs)" .
      also have "\<dots> \<subseteq> set xs" by (rule set_drop_subset)
      finally show ?thesis using Some False by auto
    qed
  qed
qed

lemma re_sub_no_match: "\<not> has_match p s \<Longrightarrow> re_sub p s = s"
  by (induction s) auto

lemma normalize_no_slash: "CHR ''/'' \<notin> set (normalize_filename x)"
proof -
  have "set (normalize_filename x) \<subseteq> set (re_sub paren_pattern (re_sub copy_pattern (path_stem x)))"
    by (simp add: normalize_filename_def patterns_to_remove_def set_strip)
  also have "\<dots> \<subseteq> set (re_sub copy_pattern (path_stem x))" by (rule set_re_sub)
  also have "\<dots> \<subseteq> set (path_stem x)" by (rule set_re_sub)
  also have "\<dots> \<subseteq> set (path_name x)" by (rule set_path_stem)
  finally show ?thesis using path_name_no_slash [of x] by auto
qed

lemma normalize_stripped: "strip (normalize_filename x) = normalize_filename x"
  by (simp add: normalize_filename_def strip_idem)

text \<open>
  Claim C5 (counterexample). Normalisation is not idempotent: the file name
  \<open>Report copy (1).pdf\<close> is normalised to \<open>Report copy\<close> (the first pattern does not match
  a name ending in \<open>(1)\<close>, the second takes \<open>(1)\<close> off), and \<open>Report copy\<close> is normalised to
  \<open>Report\<close>.
\<close>

theorem normalize_filename_not_idempotent:
  "normalize_filename ''Report copy (1).pdf'' = ''Report copy'' \<and>
   normalize_filename (normalize_filename ''Report copy (1).pdf'') = ''Report'' \<and>
   normalize_filename (normalize_filename ''Report copy (1).pdf'') \<noteq>
     normalize_filename ''Report copy (1).pdf''"
proof -
  have a: "normalize_filename ''Report copy (1).pdf'' = ''Report copy''"
    by (simp add: normalize_eval)
  have b: "normalize_filename ''Report copy'' = ''Report''"
    by (simp add: normalize_eval)
  show ?thesis unfolding a b by simp
qed

text \<open>
  Claim C5 (amended). Normalisation is idempotent on every name whose normal form is
  free of what normalisation takes off: when the normal form of \<open>x\<close> contains no dot and
  neither pattern matches anywhere in it, normalising it again gives it back.
\<close>

theorem normalize_filename_idempotent_when_clean:
  assumes "CHR ''.'' \<notin> set (normalize_filename x)"
    and "\<not> has_match copy_pattern (normalize_filename x)"
    and "\<not> has_match paren_pattern (normalize_filename x)"
  shows "normalize_filename (normalize_filename x) = normalize_filename x"
proof -
  let ?y = "normalize_filename x"
  have stem: "path_stem ?y = ?y"
    by (rule path_stem_plain [OF normalize_no_slash assms(1)])
  have "normalize_filename ?y = strip (re_sub paren_pattern (re_sub copy_pattern ?y))"
    by (simp add: normalize_filename_def [of ?y] patterns_to_remove_def stem)
  also have "\<dots> = strip ?y"
    by (simp add: re_sub_no_match [OF assms(2)] re_sub_no_match [OF assms(3)])
  also have "\<dots> = ?y" by (rule normalize_stripped)
  finally show ?thesis .
qed

theorem normalize_filename_idempotent_when_clean_witness:
  "normalize_filename ''Report Copy 2.pdf'' = ''Report'' \<and>
   CHR ''.'' \<notin> set (normalize_filename ''Report Copy 2.pdf'') \<and>
   \<not> has_match copy_pattern (normalize_filename ''Report Copy 2.pdf'') \<and>
   \<not> has_match paren_pattern (normalize_filename ''Report Copy 2.pdf'') \<and>
   normalize_filename (normalize_filename ''Report Copy 2.pdf'') =
     normalize_filename ''Report Copy 2.pdf''"
proof -
  have e: "normalize_filename ''Report Copy 2.pdf'' = ''Report''"
    by (simp add: normalize_eval)
  have h1: "CHR ''.'' \<notin> set (normalize_filename ''Report Copy 2.pdf'')"
    unfolding e by simp
  have h2: "\<not> has_match copy_pattern (normalize_filename ''Report Copy 2.pdf'')"
    unfolding e by (simp add: copy_pattern_def is_space_def)
  have h3: "\<not> has_match paren_pattern (normalize_filename ''Report Copy 2.pdf'')"
    unfolding e by (simp add: paren_pattern_def is_space_def)
  from normalize_filename_idempotent_when_clean [OF h1 h2 h3] e h1 h2 h3
  show ?thesis by (intro conjI)
qed

end
